theory Spec2Isabelle
  imports Main "HOL-Library.AList"
begin

section \<open>Ranked Pairs vote resolver (rpvote.py)\<close>

text \<open>
  Python dicts keep insertion order, and the resolver iterates over several of them, so
  every dict is an association list: \<open>d.get(k)\<close> is \<^const>\<open>map_of\<close>, \<open>d[k] = v\<close> is
  \<^const>\<open>AList.update\<close> (an existing key keeps its position, a new key goes last).
  The inner dicts of an Outcome only ever hold the value \<open>True\<close> ("sets that are
  actually dicts"), so an inner dict is the list of its keys in insertion order.
  Every exception is a value of \<open>error\<close>.
\<close>

datatype error = SelfBeat | Contradiction | ValueError | IndexError | OverflowError | KeyError

type_synonym candidate = string
type_synonym ballot = "candidate list list"
type_synonym keyset = "candidate list"
type_synonym adjacency = "(candidate \<times> keyset) list"
type_synonym margin_table = "((candidate \<times> candidate) \<times> int) list"

record Contest =
  entries :: "candidate list"
  count :: nat
  colwidth :: nat
  ballots :: "ballot list"
  margins :: margin_table
  margin_matrix :: "int list list option"

record Outcome =
  contest :: Contest
  o_entries :: "candidate list"
  higher :: adjacency
  lower :: adjacency

subsection \<open>Outcome\<close>

text \<open>\<open>Outcome.__init__\<close>: a blank Outcome of a contest.\<close>

definition Outcome_init :: "Contest \<Rightarrow> Outcome" where
  "Outcome_init c = \<lparr>contest = c, o_entries = entries c, higher = [], lower = []\<rparr>"

text \<open>The test \<open>dic and dic.get(key)\<close>: the inner dict exists, is not empty and has the key.\<close>

definition dict_has :: "keyset option \<Rightarrow> candidate \<Rightarrow> bool" where
  "dict_has dic key = (case dic of None \<Rightarrow> False | Some d \<Rightarrow> d \<noteq> [] \<and> key \<in> set d)"

text \<open>\<open>dic[key] = True\<close> on an inner dict.\<close>

definition dict_set_true :: "keyset \<Rightarrow> candidate \<Rightarrow> keyset" where
  "dict_set_true d key = (if key \<in> set d then d else d @ [key])"

text \<open>
  \<open>dic = table.get(k); if (not dic): table[k] = {key: True} else: dic[key] = True\<close>.
\<close>

definition table_add :: "adjacency \<Rightarrow> candidate \<Rightarrow> candidate \<Rightarrow> adjacency" where
  "table_add table k key =
     (case map_of table k of
        None \<Rightarrow> AList.update k [key] table
      | Some d \<Rightarrow> if d = [] then AList.update k [key] table
                  else AList.update k (dict_set_true d key) table)"

definition beats :: "Outcome \<Rightarrow> candidate \<Rightarrow> candidate \<Rightarrow> bool" where
  "beats oc winner loser = dict_has (map_of (higher oc) loser) winner"

definition compatible :: "Outcome \<Rightarrow> candidate \<Rightarrow> candidate \<Rightarrow> error + bool" where
  "compatible oc winner loser =
     (if winner = loser then Inl SelfBeat
      else if dict_has (map_of (higher oc) winner) loser then Inr False
      else if dict_has (map_of (lower oc) loser) winner then Inr False
      else Inr True)"

text \<open>
  The body of the \<open>while\<close> loop of \<open>accept\<close> after the two tests: the new fact goes into
  \<open>lower\<close> and \<open>higher\<close>, and the facts that follow from it are collected.
\<close>

definition add_fact :: "Outcome \<Rightarrow> candidate \<Rightarrow> candidate \<Rightarrow> Outcome" where
  "add_fact oc winner loser =
     (let oc1 = oc\<lparr>lower := table_add (lower oc) winner loser\<rparr>
      in oc1\<lparr>higher := table_add (higher oc1) loser winner\<rparr>)"

definition keys_of :: "keyset option \<Rightarrow> keyset" where
  "keys_of dic = (case dic of None \<Rightarrow> [] | Some d \<Rightarrow> d)"

definition consequences :: "Outcome \<Rightarrow> candidate \<Rightarrow> candidate \<Rightarrow> (candidate \<times> candidate) list" where
  "consequences oc winner loser =
     map (\<lambda>key. (key, loser))
         (filter (\<lambda>key. \<not> beats oc key loser) (keys_of (map_of (higher oc) winner)))
     @ map (\<lambda>key. (winner, key))
         (filter (\<lambda>key. \<not> beats oc winner key) (keys_of (map_of (lower oc) loser)))"

text \<open>The names that occur in an adjacency table, and the measure of the work list.\<close>

definition names_of :: "adjacency \<Rightarrow> candidate set" where
  "names_of table = fst ` set table \<union> (\<Union>p \<in> set table. set (snd p))"

definition universe :: "Outcome \<Rightarrow> (candidate \<times> candidate) list \<Rightarrow> candidate set" where
  "universe oc facts =
     names_of (higher oc) \<union> names_of (lower oc) \<union> fst ` set facts \<union> snd ` set facts"

definition unknown_pairs :: "Outcome \<Rightarrow> (candidate \<times> candidate) list \<Rightarrow> (candidate \<times> candidate) set" where
  "unknown_pairs oc facts =
     (universe oc facts \<times> universe oc facts) - {(w, l). beats oc w l}"

lemma finite_names_of: "finite (names_of table)"
  by (simp add: names_of_def)

lemma finite_universe: "finite (universe oc facts)"
  by (simp add: universe_def finite_names_of)

lemma finite_unknown_pairs: "finite (unknown_pairs oc facts)"
  by (simp add: unknown_pairs_def finite_universe)

lemma map_of_names_of:
  "map_of table k = Some d \<Longrightarrow> key \<in> set d \<Longrightarrow> k \<in> names_of table \<and> key \<in> names_of table"
  by (force simp: names_of_def dest: map_of_SomeD)

lemma set_update_subset: "set (AList.update k v al) \<subseteq> insert (k, v) (set al)"
  by (induction al) auto

lemma names_of_update:
  "names_of (AList.update k v al) \<subseteq> insert k (set v \<union> names_of al)"
proof -
  have "names_of (AList.update k v al) \<subseteq> names_of ((k, v) # al)"
    using set_update_subset [of k v al] unfolding names_of_def by fastforce
  then show ?thesis by (auto simp: names_of_def)
qed

lemma names_of_table_add:
  "names_of (table_add table k key) \<subseteq> insert k (insert key (names_of table))"
proof (cases "map_of table k")
  case None
  then show ?thesis
    using names_of_update [of k "[key]" table] by (auto simp: table_add_def)
next
  case (Some d)
  have "set d \<subseteq> names_of table"
    using Some map_of_names_of by blast
  then have "set (dict_set_true d key) \<subseteq> insert key (names_of table)"
    by (auto simp: dict_set_true_def)
  then show ?thesis
    using Some names_of_update [of k "[key]" table]
      names_of_update [of k "dict_set_true d key" table]
    by (auto simp: table_add_def)
qed

lemma dict_has_table_add:
  "dict_has (map_of (table_add table k key) a) b \<longleftrightarrow>
     dict_has (map_of table a) b \<or> (a = k \<and> b = key)"
  by (auto simp: table_add_def dict_has_def dict_set_true_def update_conv'
      split: option.splits if_splits)

lemma beats_add_fact:
  "beats (add_fact oc w l) a b \<longleftrightarrow> beats oc a b \<or> (a = w \<and> b = l)"
  by (auto simp: beats_def add_fact_def Let_def dict_has_table_add)

lemma beats_names:
  "beats oc w l \<Longrightarrow> w \<in> names_of (higher oc) \<and> l \<in> names_of (higher oc)"
  using map_of_names_of [of "higher oc" l _ w]
  by (auto simp: beats_def dict_has_def split: option.splits)

lemma names_add_fact:
  "names_of (higher (add_fact oc w l)) \<union> names_of (lower (add_fact oc w l))
     \<subseteq> insert w (insert l (names_of (higher oc) \<union> names_of (lower oc)))"
  using names_of_table_add [of "higher oc" l w] names_of_table_add [of "lower oc" w l]
  by (auto simp: add_fact_def Let_def)

lemma keys_of_names: "key \<in> set (keys_of (map_of table k)) \<Longrightarrow> key \<in> names_of table"
proof -
  assume k: "key \<in> set (keys_of (map_of table k))"
  then obtain d where d: "map_of table k = Some d" "key \<in> set d"
    by (cases "map_of table k") (auto simp: keys_of_def)
  then show ?thesis using map_of_names_of by blast
qed

lemma consequences_names:
  "(a, b) \<in> set (consequences oc w l) \<Longrightarrow>
     a \<in> insert w (names_of (higher oc)) \<and> b \<in> insert l (names_of (lower oc))"
  by (auto simp: consequences_def dest: keys_of_names)

lemma universe_step:
  "universe (add_fact oc w l) (facts @ consequences (add_fact oc w l) w l)
     \<subseteq> universe oc ((w, l) # facts)"
proof
  fix x
  assume x: "x \<in> universe (add_fact oc w l) (facts @ consequences (add_fact oc w l) w l)"
  let ?oc = "add_fact oc w l"
  have n: "names_of (higher ?oc) \<union> names_of (lower ?oc)
             \<subseteq> insert w (insert l (names_of (higher oc) \<union> names_of (lower oc)))"
    by (rule names_add_fact)
  have c: "\<And>a b. (a, b) \<in> set (consequences ?oc w l) \<Longrightarrow>
             a \<in> insert w (names_of (higher ?oc)) \<and> b \<in> insert l (names_of (lower ?oc))"
    by (rule consequences_names)
  from x consider "x \<in> names_of (higher ?oc) \<union> names_of (lower ?oc)"
    | "x \<in> fst ` set facts \<union> snd ` set facts"
    | a b where "(a, b) \<in> set (consequences ?oc w l)" "x = a \<or> x = b"
    unfolding universe_def by force
  then show "x \<in> universe oc ((w, l) # facts)"
  proof cases
    case 1
    with n show ?thesis unfolding universe_def by auto
  next
    case 2
    then show ?thesis unfolding universe_def by auto
  next
    case 3
    with c [of a b] n show ?thesis unfolding universe_def by auto
  qed
qed

lemma universe_skip: "universe oc facts \<subseteq> universe oc (p # facts)"
  unfolding universe_def by (rule Un_mono subset_refl image_mono set_subset_Cons)+

lemma unknown_pairs_skip:
  "unknown_pairs oc facts \<subseteq> unknown_pairs oc ((w, l) # facts)"
  unfolding unknown_pairs_def
  by (rule Diff_mono Sigma_mono universe_skip subset_refl)+

lemma unknown_pairs_step:
  assumes "\<not> beats oc w l"
  shows "unknown_pairs (add_fact oc w l) (facts @ consequences (add_fact oc w l) w l)
           \<subset> unknown_pairs oc ((w, l) # facts)"
proof -
  let ?oc = "add_fact oc w l" and ?fs = "facts @ consequences (add_fact oc w l) w l"
  have u: "universe ?oc ?fs \<subseteq> universe oc ((w, l) # facts)"
    by (rule universe_step)
  have sub: "unknown_pairs ?oc ?fs \<subseteq> unknown_pairs oc ((w, l) # facts)"
    using u unfolding unknown_pairs_def by (auto simp: beats_add_fact)
  have "(w, l) \<in> unknown_pairs oc ((w, l) # facts)"
    using assms unfolding unknown_pairs_def universe_def by auto
  moreover have "(w, l) \<notin> unknown_pairs ?oc ?fs"
    unfolding unknown_pairs_def by (simp add: beats_add_fact)
  ultimately show ?thesis using sub by blast
qed

text \<open>
  The \<open>while facts:\<close> loop of \<open>accept\<close>. A raised exception is \<open>Inl\<close>; the Outcome it
  leaves behind is "partially modified and inconsistent" and every caller discards it,
  so no state comes with the error.
\<close>

function accept_loop :: "Outcome \<Rightarrow> (candidate \<times> candidate) list \<Rightarrow> error + Outcome" where
  "accept_loop oc [] = Inr oc"
| "accept_loop oc ((winner, loser) # facts) =
     (case compatible oc winner loser of
        Inl e \<Rightarrow> Inl e
      | Inr ok \<Rightarrow>
          if \<not> ok then Inl Contradiction
          else if beats oc winner loser then accept_loop oc facts
          else accept_loop (add_fact oc winner loser)
                 (facts @ consequences (add_fact oc winner loser) winner loser))"
  by pat_completeness auto
termination
proof (relation "measures [\<lambda>(oc, facts). card (unknown_pairs oc facts),
                           \<lambda>(oc, facts). length facts]")
  show "wf (measures [\<lambda>(oc, facts). card (unknown_pairs oc facts),
                      \<lambda>(oc, facts). length facts])"
    by simp
next
  fix oc :: Outcome and winner loser facts x2
  have "card (unknown_pairs oc facts) \<le> card (unknown_pairs oc ((winner, loser) # facts))"
    by (rule card_mono [OF finite_unknown_pairs unknown_pairs_skip])
  then show "((oc, facts), oc, (winner, loser) # facts)
               \<in> measures [\<lambda>(oc, facts). card (unknown_pairs oc facts),
                           \<lambda>(oc, facts). length facts]"
    by auto
next
  fix oc :: Outcome and winner loser facts x2
  assume "\<not> beats oc winner loser"
  then have "card (unknown_pairs (add_fact oc winner loser)
                     (facts @ consequences (add_fact oc winner loser) winner loser))
               < card (unknown_pairs oc ((winner, loser) # facts))"
    by (intro psubset_card_mono finite_unknown_pairs unknown_pairs_step)
  then show "((add_fact oc winner loser,
                facts @ consequences (add_fact oc winner loser) winner loser),
               oc, (winner, loser) # facts)
               \<in> measures [\<lambda>(oc, facts). card (unknown_pairs oc facts),
                           \<lambda>(oc, facts). length facts]"
    by simp
qed

definition accept :: "Outcome \<Rightarrow> candidate \<Rightarrow> candidate \<Rightarrow> error + Outcome" where
  "accept oc winner loser = accept_loop oc [(winner, loser)]"

text \<open>
  The loop \<open>for tup in ls: newout.accept(*tup)\<close> of \<open>compute\<close>: it stops at the first exception.
\<close>

fun accept_all :: "Outcome \<Rightarrow> (candidate \<times> candidate) list \<Rightarrow> error + Outcome" where
  "accept_all oc [] = Inr oc"
| "accept_all oc ((winner, loser) # tups) =
     (case accept oc winner loser of Inl e \<Rightarrow> Inl e | Inr oc' \<Rightarrow> accept_all oc' tups)"

text \<open>
  \<open>clone\<close>: a fresh Outcome of the same contest, then every key of \<open>higher\<close> and of \<open>lower\<close>
  is copied with a copy of its inner dict.
\<close>

definition clone :: "Outcome \<Rightarrow> Outcome" where
  "clone oc =
     (let res = Outcome_init (contest oc);
          res = res\<lparr>higher := fold (\<lambda>(key, d). AList.update key d) (higher oc) (higher res)\<rparr>
      in res\<lparr>lower := fold (\<lambda>(key, d). AList.update key d) (lower oc) (lower res)\<rparr>)"

subsection \<open>Contest\<close>

text \<open>
  \<open>Contest.__init__\<close>. \<open>max\<close> of the empty list raises \<open>ValueError\<close>, so a contest has at
  least one candidate. The fields \<open>keydict\<close> and \<open>labels\<close> only serve \<open>iskey\<close> and the
  printing and plotting methods; they are left out.
\<close>

definition Contest_init :: "candidate list \<Rightarrow> error + Contest" where
  "Contest_init ents =
     (if ents = [] then Inl ValueError
      else Inr \<lparr>entries = ents, count = length ents,
                colwidth = max (fold max (map length (tl ents)) (length (hd ents))) 3,
                ballots = [], margins = [], margin_matrix = None\<rparr>)"

text \<open>
  \<open>addballot\<close> appends one ballot; it checks nothing.
\<close>

definition addballot :: "Contest \<Rightarrow> ballot \<Rightarrow> Contest" where
  "addballot c ls = c\<lparr>ballots := ballots c @ [ls]\<rparr>"

text \<open>
  \<open>addballot\<close> called once for each ballot of a list, as \<open>read_file\<close> does.
\<close>

definition addballots :: "Contest \<Rightarrow> ballot list \<Rightarrow> Contest" where
  "addballots c bs = fold (\<lambda>ls c. addballot c ls) bs c"

text \<open>
  \<open>applymargin\<close>: one vote more, or one vote less, for \<open>(row, col)\<close>.
\<close>

definition applymargin :: "Contest \<Rightarrow> candidate \<Rightarrow> candidate \<Rightarrow> bool \<Rightarrow> Contest" where
  "applymargin c row col rowwins =
     (let val = (case map_of (margins c) (row, col) of None \<Rightarrow> 0 | Some v \<Rightarrow> v);
          val = (if rowwins then val + 1 else val - 1)
      in c\<lparr>margins := AList.update (row, col) val (margins c)\<rparr>)"

text \<open>
  The body of the outer loop of \<open>computemargins\<close> for one ballot: every candidate of
  every rank against every candidate of every other rank.
\<close>

definition ballot_margins :: "ballot \<Rightarrow> Contest \<Rightarrow> Contest" where
  "ballot_margins ballot c =
     (let ranks = length ballot in
      fold (\<lambda>ix. fold (\<lambda>row. fold (\<lambda>jx c.
              if jx = ix then c
              else fold (\<lambda>col c. applymargin c row col (ix < jx)) (ballot ! jx) c)
            [0..<ranks]) (ballot ! ix))
        [0..<ranks] c)"

text \<open>
  \<open>int(s)\<close> on a string: white space is stripped, then an optional sign and decimal digits,
  which single underscores may separate; anything else raises \<open>ValueError\<close>. Strings are
  byte strings here, so the white space and the digits are the ASCII ones.
\<close>

definition is_space :: "char \<Rightarrow> bool" where
  "is_space ch = (let n = (of_char ch :: nat) in (9 \<le> n \<and> n \<le> 13) \<or> (28 \<le> n \<and> n \<le> 32))"

definition strip :: "string \<Rightarrow> string" where
  "strip s = rev (dropWhile is_space (rev (dropWhile is_space s)))"

definition digit_of :: "char \<Rightarrow> nat option" where
  "digit_of ch = (let n = (of_char ch :: nat) in if 48 \<le> n \<and> n \<le> 57 then Some (n - 48) else None)"

fun parse_digits :: "nat \<Rightarrow> string \<Rightarrow> nat option" where
  "parse_digits acc [] = Some acc"
| "parse_digits acc [ch] = (case digit_of ch of None \<Rightarrow> None | Some v \<Rightarrow> Some (10 * acc + v))"
| "parse_digits acc (ch # d # rest) =
     (if ch = CHR ''_'' then
        (case digit_of d of None \<Rightarrow> None | Some v \<Rightarrow> parse_digits (10 * acc + v) rest)
      else
        (case digit_of ch of None \<Rightarrow> None | Some v \<Rightarrow> parse_digits (10 * acc + v) (d # rest)))"

definition py_int :: "string \<Rightarrow> error + int" where
  "py_int s =
     (let t = strip s;
          neg = (t \<noteq> [] \<and> hd t = CHR ''-'');
          body = (if t \<noteq> [] \<and> (hd t = CHR ''-'' \<or> hd t = CHR ''+'') then tl t else t)
      in case body of
           [] \<Rightarrow> Inl ValueError
         | d # ds \<Rightarrow>
             (case digit_of d of
                None \<Rightarrow> Inl ValueError
              | Some v \<Rightarrow>
                  (case parse_digits v ds of
                     None \<Rightarrow> Inl ValueError
                   | Some n \<Rightarrow> Inr (if neg then - int n else int n))))"

text \<open>
  An index into one axis of a numpy array of length \<open>n\<close>: negative indices count from the
  end, and an index out of range raises \<open>IndexError\<close>.
\<close>

definition np_index :: "nat \<Rightarrow> int \<Rightarrow> error + nat" where
  "np_index n i =
     (if 0 \<le> i \<and> i < int n then Inr (nat i)
      else if - int n \<le> i \<and> i < 0 then Inr (nat (i + int n))
      else Inl IndexError)"

text \<open>
  \<open>matrix[i, j] = v\<close> on the array of 64-bit integers that \<open>np.full(shape, 0)\<close> makes: the
  indices are resolved first, then the value is converted.
\<close>

definition matrix_set :: "int list list \<Rightarrow> int \<Rightarrow> int \<Rightarrow> int \<Rightarrow> error + int list list" where
  "matrix_set matrix i j v =
     (case np_index (length matrix) i of
        Inl e \<Rightarrow> Inl e
      | Inr r \<Rightarrow>
          (case np_index (length (matrix ! r)) j of
             Inl e \<Rightarrow> Inl e
           | Inr k \<Rightarrow>
               if v < - (2 ^ 63) \<or> 2 ^ 63 \<le> v then Inl OverflowError
               else Inr (matrix[r := (matrix ! r)[k := v]])))"

text \<open>
  The loop of \<open>margin_to_matrix\<close> over \<open>self.margins.items()\<close>: the candidate names go
  through \<open>int\<close>.
\<close>

fun matrix_loop :: "margin_table \<Rightarrow> int list list \<Rightarrow> error + int list list" where
  "matrix_loop [] matrix = Inr matrix"
| "matrix_loop ((pair, margin) # items) matrix =
     (case py_int (fst pair) of
        Inl e \<Rightarrow> Inl e
      | Inr a \<Rightarrow>
          (case py_int (snd pair) of
             Inl e \<Rightarrow> Inl e
           | Inr b \<Rightarrow>
               if a - 1 = b - 1 then matrix_loop items matrix
               else (case matrix_set matrix (a - 1) (b - 1) margin of
                       Inl e \<Rightarrow> Inl e
                     | Inr matrix' \<Rightarrow> matrix_loop items matrix')))"

definition margin_to_matrix :: "Contest \<Rightarrow> error + Contest" where
  "margin_to_matrix c =
     (case matrix_loop (margins c) (replicate (count c) (replicate (count c) 0)) of
        Inl e \<Rightarrow> Inl e
      | Inr matrix \<Rightarrow> Inr (c\<lparr>margin_matrix := Some matrix\<rparr>))"

text \<open>
  \<open>computemargins\<close>: the loops fill \<open>self.margins\<close>, then \<open>margin_to_matrix\<close> runs. The result
  is the contest as the call leaves it and the exception raised, if any: when
  \<open>margin_to_matrix\<close> raises, the margins table has been filled already.
\<close>

definition computemargins :: "Contest \<Rightarrow> Contest \<times> error option" where
  "computemargins c =
     (let c1 = fold ballot_margins (ballots c) c
      in case margin_to_matrix c1 of Inl e \<Rightarrow> (c1, Some e) | Inr c2 \<Rightarrow> (c2, None))"

text \<open>The first loop of \<open>compute\<close>: the pairs with a positive margin, grouped by margin.\<close>

definition gather_step ::
  "margin_table \<Rightarrow> candidate \<times> candidate \<Rightarrow> (int \<times> (candidate \<times> candidate) list) list
     \<Rightarrow> (int \<times> (candidate \<times> candidate) list) list" where
  "gather_step m tup dic =
     (let val = (case map_of m tup of None \<Rightarrow> 0 | Some v \<Rightarrow> v) in
      if val \<le> 0 then dic
      else (case map_of dic val of
              None \<Rightarrow> AList.update val [tup] dic
            | Some ls \<Rightarrow> if ls = [] then AList.update val [tup] dic
                         else AList.update val (ls @ [tup]) dic))"

definition gather :: "Contest \<Rightarrow> (int \<times> (candidate \<times> candidate) list) list" where
  "gather c = fold (gather_step (margins c)) (map fst (margins c)) []"

text \<open>
  The comprehension \<open>[tup for tup in ls if outcome.compatible(*tup)]\<close>; it stands outside
  every \<open>try\<close>, so an exception of \<open>compatible\<close> leaves \<open>compute\<close>.
\<close>

fun filter_compatible ::
  "Outcome \<Rightarrow> (candidate \<times> candidate) list \<Rightarrow> error + (candidate \<times> candidate) list" where
  "filter_compatible oc [] = Inr []"
| "filter_compatible oc ((winner, loser) # ls) =
     (case compatible oc winner loser of
        Inl e \<Rightarrow> Inl e
      | Inr ok \<Rightarrow>
          (case filter_compatible oc ls of
             Inl e \<Rightarrow> Inl e
           | Inr rest \<Rightarrow> Inr (if ok then (winner, loser) # rest else rest)))"

text \<open>
  The inner loop of the leave-one-out pass: accept every fact but those equal to \<open>avoid\<close>.
\<close>

fun accept_all_except ::
  "Outcome \<Rightarrow> candidate \<times> candidate \<Rightarrow> (candidate \<times> candidate) list \<Rightarrow> error + Outcome" where
  "accept_all_except oc avoid [] = Inr oc"
| "accept_all_except oc avoid (tup # tups) =
     (if tup = avoid then accept_all_except oc avoid tups
      else (case accept oc (fst tup) (snd tup) of
              Inl e \<Rightarrow> Inl e
            | Inr oc' \<Rightarrow> accept_all_except oc' avoid tups))"

text \<open>
  One round of the loop \<open>for avoid in compatls\<close>: when the attempt without \<open>avoid\<close>
  raises, \<open>avoid\<close> is appended to \<open>notguilty\<close>.
\<close>

definition notguilty_step ::
  "Outcome \<Rightarrow> (candidate \<times> candidate) list \<Rightarrow> candidate \<times> candidate
     \<Rightarrow> (candidate \<times> candidate) list \<Rightarrow> (candidate \<times> candidate) list" where
  "notguilty_step outcome compatls avoid notguilty =
     (case accept_all_except (clone outcome) avoid compatls of
        Inl e \<Rightarrow> notguilty @ [avoid]
      | Inr newout \<Rightarrow> notguilty)"

text \<open>
  The rest of the loop body of \<open>compute\<close> once the bulk accept has raised: the result is
  the Outcome that the level ends with.
\<close>

definition leave_one_out :: "Outcome \<Rightarrow> (candidate \<times> candidate) list \<Rightarrow> Outcome" where
  "leave_one_out outcome compatls =
     (let notguilty = fold (notguilty_step outcome compatls) compatls [] in
      if length notguilty = 0 \<or> length notguilty = length compatls then outcome
      else (case accept_all (clone outcome) notguilty of
              Inl e \<Rightarrow> outcome
            | Inr newout \<Rightarrow> newout))"

text \<open>
  The body of the loop over the levels, for a level that has facts.
\<close>

definition process_level :: "Outcome \<Rightarrow> (candidate \<times> candidate) list \<Rightarrow> error + Outcome" where
  "process_level outcome ls =
     (case filter_compatible outcome ls of
        Inl e \<Rightarrow> Inl e
      | Inr compatls \<Rightarrow>
          (case accept_all (clone outcome) compatls of
             Inr newout \<Rightarrow> Inr newout
           | Inl e \<Rightarrow> Inr (leave_one_out outcome compatls)))"

text \<open>
  The loop \<open>for level in range(maxmargin, 0, -1)\<close>.
\<close>

fun levels_loop ::
  "(int \<times> (candidate \<times> candidate) list) list \<Rightarrow> int list \<Rightarrow> Outcome \<Rightarrow> error + Outcome" where
  "levels_loop dic [] outcome = Inr outcome"
| "levels_loop dic (level # levels) outcome =
     (case map_of dic level of
        None \<Rightarrow> levels_loop dic levels outcome
      | Some ls \<Rightarrow>
          if ls = [] then levels_loop dic levels outcome
          else (case process_level outcome ls of
                  Inl e \<Rightarrow> Inl e
                | Inr outcome' \<Rightarrow> levels_loop dic levels outcome'))"

definition compute :: "Contest \<Rightarrow> error + Outcome" where
  "compute c =
     (let dic = gather c;
          outcome = Outcome_init c in
      if dic = [] then Inr outcome
      else let maxmargin = fold max (map fst (tl dic)) (fst (hd dic))
           in levels_loop dic (rev [1..maxmargin]) outcome)"

subsection \<open>Tally\<close>

text \<open>
  The inner loop of \<open>result\<close>: the wins and losses of \<open>row\<close>.
\<close>

definition tally :: "Outcome \<Rightarrow> candidate \<Rightarrow> int \<times> int" where
  "tally oc row =
     fold (\<lambda>col (wins, losses).
            if col = row then (wins, losses)
            else let losses = (if dict_has (map_of (higher oc) row) col then losses + 1 else losses);
                     wins = (if dict_has (map_of (lower oc) row) col then wins + 1 else wins)
                 in (wins, losses))
       (o_entries oc) (0, 0)"

definition result :: "Outcome \<Rightarrow> (candidate \<times> int \<times> int \<times> int) list" where
  "result oc =
     (let total = int (count (contest oc)) - 1 in
      fold (\<lambda>row res. case tally oc row of
              (wins, losses) \<Rightarrow> AList.update row (wins, losses, total - (wins + losses)) res)
        (o_entries oc) [])"

text \<open>
  Python compares tuples lexicographically; \<open>cmp\<close> and \<open>func\<close> are the local functions of
  \<open>printresult\<close>, with \<open>res[key]\<close> raising \<open>KeyError\<close> on a missing key.
\<close>

definition tuple_lt :: "int \<times> int \<Rightarrow> int \<times> int \<Rightarrow> bool" where
  "tuple_lt a b \<longleftrightarrow> fst a < fst b \<or> (fst a = fst b \<and> snd a < snd b)"

definition cmp :: "int \<times> int \<Rightarrow> int \<times> int \<Rightarrow> int" where
  "cmp a b = (if tuple_lt b a then 1 else 0) - (if tuple_lt a b then 1 else 0)"

definition func :: "(candidate \<times> int \<times> int \<times> int) list \<Rightarrow> candidate \<Rightarrow> candidate \<Rightarrow> error + int" where
  "func res key1 key2 =
     (case map_of res key1 of
        None \<Rightarrow> Inl KeyError
      | Some (w1, l1, t1) \<Rightarrow>
          (case map_of res key2 of
             None \<Rightarrow> Inl KeyError
           | Some (w2, l2, t2) \<Rightarrow> Inr (cmp (w2, t2) (w1, t1))))"

text \<open>
  \<open>ls.sort(key = cmp_to_key(func))\<close>. \<open>list.sort\<close> is stable and compares with \<open>__lt__\<close> only,
  which is \<open>mycmp(a, b) < 0\<close>. The model is the straight insertion sort with these
  comparisons: each element in turn goes into the sorted part before the first element
  it is less than, so after the elements that compare equal.
\<close>

fun insert_sorted :: "('a \<Rightarrow> 'a \<Rightarrow> error + int) \<Rightarrow> 'a \<Rightarrow> 'a list \<Rightarrow> error + 'a list" where
  "insert_sorted mycmp pivot [] = Inr [pivot]"
| "insert_sorted mycmp pivot (x # xs) =
     (case mycmp pivot x of
        Inl e \<Rightarrow> Inl e
      | Inr v \<Rightarrow>
          if v < 0 then Inr (pivot # x # xs)
          else (case insert_sorted mycmp pivot xs of
                  Inl e \<Rightarrow> Inl e
                | Inr ys \<Rightarrow> Inr (x # ys)))"

fun sort_loop :: "('a \<Rightarrow> 'a \<Rightarrow> error + int) \<Rightarrow> 'a list \<Rightarrow> 'a list \<Rightarrow> error + 'a list" where
  "sort_loop mycmp [] done = Inr done"
| "sort_loop mycmp (pivot # rest) done =
     (case insert_sorted mycmp pivot done of
        Inl e \<Rightarrow> Inl e
      | Inr done' \<Rightarrow> sort_loop mycmp rest done')"

text \<open>
  The list \<open>ls\<close> of \<open>printresult\<close> after the sort: the order in which the tally is printed.
\<close>

definition printresult_order :: "Outcome \<Rightarrow> error + candidate list" where
  "printresult_order oc = (let res = result oc; ls = o_entries oc in sort_loop (func res) ls [])"

section \<open>Properties\<close>

subsection \<open>Notions of the specification\<close>

text \<open>
  \<open>lower\<close> read as \<open>beats\<close> reads \<open>higher\<close>.
\<close>

definition lower_has :: "Outcome \<Rightarrow> candidate \<Rightarrow> candidate \<Rightarrow> bool" where
  "lower_has oc winner loser = dict_has (map_of (lower oc) winner) loser"

text \<open>
  The two tables of an Outcome hold the same relation.
\<close>

definition mirrored :: "Outcome \<Rightarrow> bool" where
  "mirrored oc = (\<forall>a b. lower_has oc a b = beats oc a b)"

text \<open>
  No contradiction: never both \<open>beats(A, B)\<close> and \<open>beats(B, A)\<close>.
\<close>

definition asym_beats :: "Outcome \<Rightarrow> bool" where
  "asym_beats oc = (\<forall>a b. \<not> (beats oc a b \<and> beats oc b a))"

text \<open>
  An Outcome records "winner beats loser" when either table holds it.
\<close>

definition records :: "Outcome \<Rightarrow> candidate \<Rightarrow> candidate \<Rightarrow> bool" where
  "records oc winner loser \<longleftrightarrow> beats oc winner loser \<or> lower_has oc winner loser"

definition contradiction_free :: "Outcome \<Rightarrow> bool" where
  "contradiction_free oc = (\<forall>a b. \<not> (records oc a b \<and> records oc b a))"

text \<open>
  A margins table as \<open>computemargins\<close> builds it: the keys of a dict are distinct, and no
  candidate has a positive margin over itself.
\<close>

definition table_ok :: "margin_table \<Rightarrow> bool" where
  "table_ok m \<longleftrightarrow> distinct (map fst m) \<and> (\<forall>((a, b), v) \<in> set m. 0 < v \<longrightarrow> a \<noteq> b)"

text \<open>
  The leave-one-out heuristic in the words of the specification: the exclusion set is made
  of the pairs whose omission lets the others be accepted; the level is abandoned when
  that set is empty or is everything; otherwise the pairs that are not excluded are
  tried as one batch.
\<close>

definition spec_leave_one_out :: "Outcome \<Rightarrow> (candidate \<times> candidate) list \<Rightarrow> Outcome" where
  "spec_leave_one_out oc remaining =
     (let excluded = filter (\<lambda>P. \<not> isl (accept_all (clone oc) (removeAll P remaining))) remaining;
          kept = filter (\<lambda>P. P \<notin> set excluded) remaining
      in if excluded = [] \<or> set excluded = set remaining then oc
         else (case accept_all (clone oc) kept of Inl e \<Rightarrow> oc | Inr newout \<Rightarrow> newout))"

text \<open>
  The resolution driver in the words of the specification: the positive margins in
  strictly descending order, the pairs of each margin, and at each level the pairs that
  are compatible with the Outcome so far, accepted in bulk into a clone.
\<close>

definition spec_levels :: "Contest \<Rightarrow> int list" where
  "spec_levels c = rev (sort (remdups (filter (\<lambda>v. 0 < v) (map snd (margins c)))))"

definition spec_facts_at :: "Contest \<Rightarrow> int \<Rightarrow> (candidate \<times> candidate) list" where
  "spec_facts_at c v = map fst (filter (\<lambda>(tup, val). val = v) (margins c))"

definition spec_level :: "Outcome \<Rightarrow> (candidate \<times> candidate) list \<Rightarrow> Outcome" where
  "spec_level outcome facts =
     (let remaining = filter (\<lambda>(winner, loser). compatible outcome winner loser = Inr True) facts
      in case accept_all (clone outcome) remaining of
           Inr newout \<Rightarrow> newout
         | Inl e \<Rightarrow> leave_one_out outcome remaining)"

definition spec_compute :: "Contest \<Rightarrow> Outcome" where
  "spec_compute c =
     fold (\<lambda>v outcome. spec_level outcome (spec_facts_at c v)) (spec_levels c) (Outcome_init c)"

subsection \<open>Examples\<close>

text \<open>
  Example contests.
\<close>

definition three :: Contest where
  "three = \<lparr>entries = [''1'', ''2'', ''3''], count = 3, colwidth = 3,
             ballots = [], margins = [], margin_matrix = None\<rparr>"

definition chain :: Outcome where
  "chain = \<lparr>contest = three, o_entries = [''1'', ''2'', ''3''],
             higher = [(''2'', [''1'']), (''3'', [''2'', ''1''])],
             lower = [(''1'', [''2'', ''3'']), (''2'', [''3''])]\<rparr>"

definition docs_contest :: Contest where
  "docs_contest = \<lparr>entries = [''AAA'', ''BBB'', ''CCC'', ''DDD''], count = 4, colwidth = 3,
     ballots = [], margins = [], margin_matrix = None\<rparr>"

definition docs_ballots :: "ballot list" where
  "docs_ballots =
     [[[''DDD''], [''CCC''], [''BBB''], [''AAA'']],
      [[''DDD''], [''AAA''], [''BBB'']],
      [[''DDD''], [''AAA'', ''CCC''], [''BBB'']],
      [[''CCC''], [''AAA'', ''DDD'', ''BBB'']],
      [[''AAA'']],
      [[''AAA'', ''DDD'']]]"

definition docs_tallied :: Contest where
  "docs_tallied = \<lparr>entries = [''AAA'', ''BBB'', ''CCC'', ''DDD''], count = 4, colwidth = 3,
     ballots = docs_ballots,
     margins =
       [((''DDD'', ''CCC''), 1), ((''DDD'', ''BBB''), 3),
        ((''DDD'', ''AAA''), 3), ((''CCC'', ''DDD''), - 1),
        ((''CCC'', ''BBB''), 3), ((''CCC'', ''AAA''), 2),
        ((''BBB'', ''DDD''), - 3), ((''BBB'', ''CCC''), - 3),
        ((''BBB'', ''AAA''), - 1), ((''AAA'', ''DDD''), - 3),
        ((''AAA'', ''CCC''), - 2), ((''AAA'', ''BBB''), 1)],
     margin_matrix = None\<rparr>"

definition docs_outcome :: Outcome where
  "docs_outcome = \<lparr>contest = docs_tallied, o_entries = [''AAA'', ''BBB'', ''CCC'', ''DDD''],
     higher = [(''BBB'', [''DDD'', ''CCC'', ''AAA'']), (''AAA'', [''DDD'', ''CCC'']),
               (''CCC'', [''DDD''])],
     lower = [(''DDD'', [''BBB'', ''AAA'', ''CCC'']), (''CCC'', [''BBB'', ''AAA'']),
              (''AAA'', [''BBB''])]\<rparr>"

definition pair_tallied :: Contest where
  "pair_tallied = \<lparr>entries = [''1'', ''2'', ''3''], count = 3, colwidth = 3,
     ballots = [[[''2''], [''3'']]],
     margins = [((''2'', ''3''), 1), ((''3'', ''2''), - 1)],
     margin_matrix = Some [[0, 0, 0], [0, 0, 1], [0, - 1, 0]]\<rparr>"

definition pair_outcome :: Outcome where
  "pair_outcome = \<lparr>contest = pair_tallied, o_entries = [''1'', ''2'', ''3''],
     higher = [(''3'', [''2''])], lower = [(''2'', [''3''])]\<rparr>"

definition cycle_tallied :: Contest where
  "cycle_tallied = \<lparr>entries = [''1'', ''2'', ''3'', ''4''], count = 4, colwidth = 3,
     ballots = [[[''1''], [''2''], [''3'']], [[''2''], [''3''], [''1'']],
                [[''3''], [''1''], [''2'']], [[''1''], [''4'']]],
     margins =
       [((''1'', ''2''), 1), ((''1'', ''3''), - 1), ((''2'', ''1''), - 1),
        ((''2'', ''3''), 1), ((''3'', ''1''), 1), ((''3'', ''2''), - 1),
        ((''1'', ''4''), 1), ((''4'', ''1''), - 1)],
     margin_matrix = Some [[0, 1, - 1, 1], [- 1, 0, 1, 0], [1, - 1, 0, 0], [- 1, 0, 0, 0]]\<rparr>"

definition cycle_facts :: "(candidate \<times> candidate) list" where
  "cycle_facts = [(''1'', ''2''), (''2'', ''3''), (''3'', ''1''), (''1'', ''4'')]"

definition cycle_outcome :: Outcome where
  "cycle_outcome = \<lparr>contest = cycle_tallied, o_entries = [''1'', ''2'', ''3'', ''4''],
     higher = [(''4'', [''1''])], lower = [(''1'', [''4''])]\<rparr>"

subsection \<open>Auxiliary definitions\<close>

text \<open>
  The invariant of the work list of \<open>accept\<close>: the relation is transitive up to the
  facts that are still to be processed.
\<close>

definition closed_upto :: "Outcome \<Rightarrow> (candidate \<times> candidate) list \<Rightarrow> bool" where
  "closed_upto oc facts =
     (\<forall>a b c. beats oc a b \<longrightarrow> beats oc b c \<longrightarrow> beats oc a c \<or> (a, c) \<in> set facts)"

definition loop_inv :: "Outcome \<Rightarrow> (candidate \<times> candidate) list \<Rightarrow> bool" where
  "loop_inv oc facts \<longleftrightarrow> mirrored oc \<and> asym_beats oc \<and> closed_upto oc facts"

type_synonym call = "candidate \<times> candidate \<times> bool"

text \<open>
  Margins as a count of calls: the calls of \<open>applymargin\<close> that one ballot makes, in order,
  and their effect on one entry of the table.
\<close>

definition app :: "call \<Rightarrow> margin_table \<Rightarrow> margin_table" where
  "app = (\<lambda>(row, col, rowwins) m.
     AList.update (row, col)
       ((case map_of m (row, col) of None \<Rightarrow> 0 | Some v \<Rightarrow> v) + (if rowwins then 1 else - 1)) m)"

definition cols_calls :: "ballot \<Rightarrow> nat \<Rightarrow> candidate \<Rightarrow> nat \<Rightarrow> call list" where
  "cols_calls b ix row jx = (if jx = ix then [] else map (\<lambda>col. (row, col, ix < jx)) (b ! jx))"

definition row_calls :: "ballot \<Rightarrow> nat \<Rightarrow> candidate \<Rightarrow> call list" where
  "row_calls b ix row = concat (map (cols_calls b ix row) [0..<length b])"

definition rank_calls :: "ballot \<Rightarrow> nat \<Rightarrow> call list" where
  "rank_calls b ix = concat (map (row_calls b ix) (b ! ix))"

definition calls :: "ballot \<Rightarrow> call list" where
  "calls b = concat (map (rank_calls b) [0..<length b])"

definition val_of :: "margin_table \<Rightarrow> candidate \<times> candidate \<Rightarrow> int" where
  "val_of m k = (case map_of m k of None \<Rightarrow> 0 | Some v \<Rightarrow> v)"

definition weight :: "candidate \<times> candidate \<Rightarrow> call \<Rightarrow> int" where
  "weight k = (\<lambda>(r, c, w). if (r, c) = k then (if w then 1 else - 1) else 0)"

definition delta :: "call list \<Rightarrow> candidate \<times> candidate \<Rightarrow> int" where
  "delta cs k = sum_list (map (weight k) cs)"

definition touched :: "call list \<Rightarrow> (candidate \<times> candidate) set" where
  "touched cs = (\<lambda>(r, c, w). (r, c)) ` set cs"

definition col_term :: "ballot \<Rightarrow> candidate \<Rightarrow> nat \<Rightarrow> nat \<Rightarrow> int" where
  "col_term b B ix jx =
     (if jx = ix then 0 else int (count_list (b ! jx) B) * (if ix < jx then 1 else - 1))"

definition pair_term :: "ballot \<Rightarrow> candidate \<Rightarrow> candidate \<Rightarrow> nat \<Rightarrow> nat \<Rightarrow> int" where
  "pair_term b A B ix jx =
     (if jx = ix then 0
      else int (count_list (b ! ix) A) * (int (count_list (b ! jx) B) * (if ix < jx then 1 else - 1)))"

text \<open>
  Auxiliary notions for the first loop of \<open>compute\<close>.
\<close>

definition no_empty :: "(int \<times> (candidate \<times> candidate) list) list \<Rightarrow> bool" where
  "no_empty dic \<longleftrightarrow> (\<forall>v. map_of dic v \<noteq> Some [])"

definition level_of :: "margin_table \<Rightarrow> candidate \<times> candidate \<Rightarrow> int" where
  "level_of m tup = (case map_of m tup of None \<Rightarrow> 0 | Some v \<Rightarrow> v)"

text \<open>
  The tuple that \<open>result\<close> stores for a candidate, and the key that \<open>func\<close> compares.
\<close>

definition triple :: "Outcome \<Rightarrow> candidate \<Rightarrow> int \<times> int \<times> int" where
  "triple oc row =
     (case tally oc row of
        (wins, losses) \<Rightarrow> (wins, losses, int (count (contest oc)) - 1 - (wins + losses)))"

definition sort_key :: "Outcome \<Rightarrow> candidate \<Rightarrow> int \<times> int" where
  "sort_key oc k = (case triple oc k of (w, l, t) \<Rightarrow> (w, t))"

definition not_after :: "Outcome \<Rightarrow> candidate \<Rightarrow> candidate \<Rightarrow> bool" where
  "not_after oc a b \<longleftrightarrow> \<not> tuple_lt (sort_key oc a) (sort_key oc b)"

subsection \<open>The invariant of accept\<close>

lemma lower_has_add_fact:
  "lower_has (add_fact oc w l) a b \<longleftrightarrow> lower_has oc a b \<or> (a = w \<and> b = l)"
  by (auto simp: lower_has_def add_fact_def Let_def dict_has_table_add)

lemma compatible_True:
  "compatible oc w l = Inr True \<Longrightarrow> w \<noteq> l \<and> \<not> beats oc l w \<and> \<not> lower_has oc l w"
  by (simp add: compatible_def beats_def lower_has_def split: if_splits)

lemma mem_keys_of: "key \<in> set (keys_of dic) \<longleftrightarrow> dict_has dic key"
  by (cases dic) (auto simp: keys_of_def dict_has_def)

lemma mem_consequences:
  "(a, b) \<in> set (consequences oc w l) \<longleftrightarrow>
     (b = l \<and> beats oc a w \<and> \<not> beats oc a l) \<or> (a = w \<and> lower_has oc l b \<and> \<not> beats oc w b)"
  by (auto simp: consequences_def mem_keys_of beats_def lower_has_def)

lemma mirrored_add_fact: "mirrored oc \<Longrightarrow> mirrored (add_fact oc w l)"
  by (simp add: mirrored_def lower_has_add_fact beats_add_fact)

lemma asym_add_fact:
  "asym_beats oc \<Longrightarrow> w \<noteq> l \<Longrightarrow> \<not> beats oc l w \<Longrightarrow> asym_beats (add_fact oc w l)"
  unfolding asym_beats_def beats_add_fact by blast

lemma closed_upto_skip:
  "closed_upto oc ((w, l) # facts) \<Longrightarrow> beats oc w l \<Longrightarrow> closed_upto oc facts"
  unfolding closed_upto_def by (metis prod.inject set_ConsD)

lemma closed_upto_add_fact:
  assumes m: "mirrored oc" and c: "closed_upto oc ((w, l) # facts)"
  shows "closed_upto (add_fact oc w l) (facts @ consequences (add_fact oc w l) w l)"
  unfolding closed_upto_def
proof (intro allI impI)
  fix x y z
  let ?oc = "add_fact oc w l"
  assume xy: "beats ?oc x y" and yz: "beats ?oc y z"
  have m': "\<And>p q. lower_has ?oc p q = beats ?oc p q"
    using mirrored_add_fact [OF m] by (simp add: mirrored_def)
  show "beats ?oc x z \<or> (x, z) \<in> set (facts @ consequences ?oc w l)"
  proof (cases "beats ?oc x z")
    case True
    then show ?thesis by simp
  next
    case False
    then have nxz: "\<not> beats oc x z" and ne: "(x, z) \<noteq> (w, l)"
      by (auto simp: beats_add_fact)
    consider (old) "beats oc x y" "beats oc y z"
      | (left) "x = w" "y = l" "beats ?oc l z"
      | (right) "beats ?oc x w" "y = w" "z = l"
      using xy yz by (auto simp: beats_add_fact)
    then show ?thesis
    proof cases
      case old
      then have "(x, z) \<in> set ((w, l) # facts)"
        using c nxz unfolding closed_upto_def by blast
      with ne show ?thesis by auto
    next
      case left
      then have "(x, z) \<in> set (consequences ?oc w l)"
        using False by (simp add: mem_consequences m')
      then show ?thesis by simp
    next
      case right
      then have "(x, z) \<in> set (consequences ?oc w l)"
        using False by (simp add: mem_consequences)
      then show ?thesis by simp
    qed
  qed
qed

lemma accept_loop_inv:
  "accept_loop oc facts = Inr oc' \<Longrightarrow> loop_inv oc facts \<Longrightarrow> loop_inv oc' []"
proof (induction oc facts rule: accept_loop.induct)
  case (1 oc)
  then show ?case by simp
next
  case (2 oc winner loser facts)
  from "2.prems"(1) have ok: "compatible oc winner loser = Inr True"
    by (auto split: sum.splits if_splits)
  note ct = compatible_True [OF ok]
  show ?case
  proof (cases "beats oc winner loser")
    case True
    with "2.prems" ok have "accept_loop oc facts = Inr oc'" by simp
    moreover have "loop_inv oc facts"
      using "2.prems"(2) True closed_upto_skip unfolding loop_inv_def by blast
    ultimately show ?thesis using "2.IH"(1) [OF ok _ True] by simp
  next
    case False
    let ?oc = "add_fact oc winner loser"
    from "2.prems" ok False
    have r: "accept_loop ?oc (facts @ consequences ?oc winner loser) = Inr oc'" by simp
    have "loop_inv ?oc (facts @ consequences ?oc winner loser)"
      using "2.prems"(2) ct mirrored_add_fact asym_add_fact closed_upto_add_fact
      unfolding loop_inv_def by blast
    then show ?thesis using "2.IH"(2) [OF ok _ False] r by simp
  qed
qed

lemma three_init: "Contest_init [''1'', ''2'', ''3''] = Inr three"
  by (simp add: Contest_init_def three_def)

lemma chain_accepts:
  "accept_all (Outcome_init three) [(''1'', ''2''), (''2'', ''3'')] = Inr chain"
  by (simp add: accept_def compatible_def beats_def dict_has_def add_fact_def table_add_def
      consequences_def keys_of_def dict_set_true_def Outcome_init_def chain_def three_def)

lemma loop_inv_weaken: "loop_inv oc [] \<Longrightarrow> loop_inv oc facts"
  by (simp add: loop_inv_def closed_upto_def)

lemma accept_inv: "accept oc a b = Inr oc' \<Longrightarrow> loop_inv oc [] \<Longrightarrow> loop_inv oc' []"
  unfolding accept_def using accept_loop_inv loop_inv_weaken by blast

lemma accept_all_inv: "accept_all oc tups = Inr oc' \<Longrightarrow> loop_inv oc [] \<Longrightarrow> loop_inv oc' []"
proof (induction oc tups rule: accept_all.induct)
  case (1 oc)
  then show ?case by simp
next
  case (2 oc winner loser tups)
  then obtain oc1 where a: "accept oc winner loser = Inr oc1" and r: "accept_all oc1 tups = Inr oc'"
    by (auto split: sum.splits)
  from accept_inv [OF a "2.prems"(2)] "2.IH" [OF a r] show ?case by blast
qed

lemma blank_inv: "loop_inv (Outcome_init c) []"
  by (simp add: loop_inv_def mirrored_def asym_beats_def closed_upto_def lower_has_def
      beats_def dict_has_def Outcome_init_def)

text \<open>
  Claim C3. Every Outcome obtained from a blank Outcome by a sequence of \<open>accept(A, B)\<close>
  calls with \<open>A \<noteq> B\<close> that all return without raising has a \<open>beats\<close> relation that is
  irreflexive, free of contradictions (never both \<open>beats(A, B)\<close> and \<open>beats(B, A)\<close>) and
  transitively closed.
\<close>

theorem accept_sequence_closed:
  assumes "\<forall>(a, b) \<in> set tups. a \<noteq> b"
    and "accept_all (Outcome_init c) tups = Inr oc"
  shows "(\<forall>a. \<not> beats oc a a) \<and> (\<forall>a b. \<not> (beats oc a b \<and> beats oc b a))
           \<and> (\<forall>a b c. beats oc a b \<and> beats oc b c \<longrightarrow> beats oc a c)"
proof -
  have "loop_inv oc []"
    using accept_all_inv [OF assms(2) blank_inv] .
  then have a: "asym_beats oc" and c: "closed_upto oc []"
    by (simp_all add: loop_inv_def)
  from a have "\<forall>a b. \<not> (beats oc a b \<and> beats oc b a)"
    by (simp add: asym_beats_def)
  moreover from this have "\<forall>a. \<not> beats oc a a" by blast
  moreover from c have "\<forall>a b c. beats oc a b \<and> beats oc b c \<longrightarrow> beats oc a c"
    unfolding closed_upto_def by auto
  ultimately show ?thesis by blast
qed

theorem accept_sequence_closed_witness:
  "accept_all (Outcome_init three) [(''1'', ''2''), (''2'', ''3'')] = Inr chain
     \<and> (\<forall>a. \<not> beats chain a a) \<and> (\<forall>a b. \<not> (beats chain a b \<and> beats chain b a))
     \<and> beats chain ''1'' ''2'' \<and> beats chain ''2'' ''3'' \<and> beats chain ''1'' ''3''"
proof -
  have h: "\<forall>(a, b) \<in> set [(''1'', ''2''), (''2'', ''3'')]. a \<noteq> b" by simp
  have b: "beats chain ''1'' ''2''" "beats chain ''2'' ''3''"
    by (simp_all add: beats_def dict_has_def chain_def)
  from accept_sequence_closed [OF h chain_accepts] chain_accepts b show ?thesis by blast
qed

text \<open>
  Claim C5. \<open>compatible(A, B)\<close> raises exactly when \<open>A = B\<close>; for \<open>A \<noteq> B\<close>, on an
  Outcome whose \<open>higher\<close> and \<open>lower\<close> tables mirror each other and hold no contradiction,
  it returns the negation of \<open>beats(B, A)\<close>.
\<close>

theorem compatible_spec:
  "((\<exists>e. compatible oc A B = Inl e) \<longleftrightarrow> A = B)
     \<and> (A \<noteq> B \<longrightarrow> mirrored oc \<longrightarrow> asym_beats oc \<longrightarrow> compatible oc A B = Inr (\<not> beats oc B A))"
  by (auto simp: compatible_def mirrored_def lower_has_def beats_def)

lemma chain_inv: "loop_inv chain []"
  using accept_all_inv [OF chain_accepts blank_inv] .

theorem compatible_spec_witness:
  "''3'' \<noteq> ''1'' \<and> mirrored chain \<and> asym_beats chain \<and> beats chain ''1'' ''3''
     \<and> compatible chain ''3'' ''1'' = Inr False
     \<and> compatible chain ''1'' ''3'' = Inr True
     \<and> compatible chain ''1'' ''1'' = Inl SelfBeat"
proof -
  have m: "mirrored chain" and a: "asym_beats chain"
    using chain_inv by (simp_all add: loop_inv_def)
  have b: "beats chain ''1'' ''3''" "\<not> beats chain ''3'' ''1''"
    by (simp_all add: beats_def dict_has_def chain_def)
  have s: "compatible chain ''1'' ''1'' = Inl SelfBeat" by (simp add: compatible_def)
  from compatible_spec [of chain "''3''" "''1''"] compatible_spec [of chain "''1''" "''3''"]
    m a b s show ?thesis by simp
qed

lemma mirrored_contradiction_free:
  "mirrored oc \<Longrightarrow> asym_beats oc \<Longrightarrow> contradiction_free oc"
  by (simp add: contradiction_free_def records_def mirrored_def asym_beats_def)

text \<open>
  Claim C9. When \<open>beats(A, B)\<close> already holds in an Outcome that records no
  contradiction, \<open>accept(A, B)\<close> returns without raising and leaves the Outcome, both
  tables included, as it was.
\<close>

theorem accept_known_fact:
  assumes "contradiction_free oc" and "beats oc A B"
  shows "accept oc A B = Inr oc"
proof -
  from assms have r: "records oc A B" by (simp add: records_def)
  with assms(1) have n: "\<not> records oc B A" by (auto simp: contradiction_free_def)
  from r n have "A \<noteq> B" by auto
  moreover from n have "\<not> beats oc B A" "\<not> lower_has oc B A" by (simp_all add: records_def)
  ultimately have "compatible oc A B = Inr True"
    by (simp add: compatible_def beats_def lower_has_def)
  with assms(2) show ?thesis by (simp add: accept_def)
qed

theorem accept_known_fact_witness:
  "contradiction_free chain \<and> beats chain ''1'' ''3'' \<and> accept chain ''1'' ''3'' = Inr chain"
proof -
  have c: "contradiction_free chain"
    using chain_inv mirrored_contradiction_free by (simp add: loop_inv_def)
  have b: "beats chain ''1'' ''3''" by (simp add: beats_def dict_has_def chain_def)
  from accept_known_fact [OF c b] c b show ?thesis by simp
qed

text \<open>
  Claim C10. In every Outcome reached from a blank one by successful \<open>accept\<close> calls,
  \<open>beats(A, A)\<close> is \<open>False\<close> for every candidate \<open>A\<close>: neither \<open>higher\<close> nor \<open>lower\<close>
  records a self-pair. (\<open>beats\<close> has no \<open>raise\<close>; it is a total function here.)
\<close>

theorem no_self_pair:
  assumes "accept_all (Outcome_init c) tups = Inr oc"
  shows "\<not> beats oc A A \<and> \<not> lower_has oc A A"
proof -
  have "loop_inv oc []"
    using accept_all_inv [OF assms blank_inv] .
  then have "mirrored oc" "asym_beats oc"
    by (simp_all add: loop_inv_def)
  then show ?thesis by (auto simp: mirrored_def asym_beats_def)
qed

theorem no_self_pair_witness:
  "accept_all (Outcome_init three) [(''1'', ''2''), (''2'', ''3'')] = Inr chain
     \<and> \<not> beats chain ''2'' ''2'' \<and> \<not> lower_has chain ''2'' ''2''"
  using no_self_pair [OF chain_accepts, of "''2''"] chain_accepts by simp

subsection \<open>The margins table\<close>

lemma applymargin_app:
  "applymargin c row col w = c\<lparr>margins := app (row, col, w) (margins c)\<rparr>"
  by (simp add: applymargin_def app_def Let_def)

lemma fold_applymargin:
  "fold (\<lambda>(r, cl, w) c. applymargin c r cl w) cs c = c\<lparr>margins := fold app cs (margins c)\<rparr>"
  by (induction cs arbitrary: c) (auto simp: applymargin_app)

lemma fold_concat_map: "fold f (concat (map g xs)) c = fold (\<lambda>x. fold f (g x)) xs c"
  by (induction xs arbitrary: c) auto

lemma fold_cols_calls:
  "fold (\<lambda>(r, cl, w) c. applymargin c r cl w) (cols_calls b ix row jx) c
     = (if jx = ix then c else fold (\<lambda>col c. applymargin c row col (ix < jx)) (b ! jx) c)"
  by (simp add: cols_calls_def fold_map comp_def)

lemma ballot_margins_calls:
  "ballot_margins b c = fold (\<lambda>(r, cl, w) c. applymargin c r cl w) (calls b) c"
  unfolding ballot_margins_def calls_def rank_calls_def row_calls_def Let_def
    fold_concat_map fold_cols_calls ..

lemma ballot_margins_app:
  "ballot_margins b c = c\<lparr>margins := fold app (calls b) (margins c)\<rparr>"
  by (simp add: ballot_margins_calls fold_applymargin)

lemma fold_ballot_margins:
  "fold ballot_margins bs c = c\<lparr>margins := fold app (concat (map calls bs)) (margins c)\<rparr>"
  by (induction bs arbitrary: c) (auto simp: ballot_margins_app)

lemma map_of_app:
  "map_of (app x m) k =
     (if k = (fst x, fst (snd x)) then Some (val_of m k + weight k x) else map_of m k)"
  by (cases x) (auto simp: app_def update_conv' val_of_def weight_def)

lemma map_of_fold_app:
  "map_of (fold app cs m) k =
     (if k \<in> touched cs \<or> map_of m k \<noteq> None then Some (val_of m k + delta cs k) else None)"
proof (induction cs arbitrary: m)
  case Nil
  then show ?case by (auto simp: touched_def delta_def val_of_def)
next
  case (Cons x cs)
  obtain r c w where x: "x = (r, c, w)" by (cases x)
  have t: "touched (x # cs) = insert (r, c) (touched cs)"
    by (simp add: touched_def x)
  have d: "delta (x # cs) k = weight k x + delta cs k"
    by (simp add: delta_def)
  have v: "val_of (app x m) k = val_of m k + weight k x"
    by (auto simp: val_of_def map_of_app x weight_def split: option.splits)
  have n: "map_of (app x m) k \<noteq> None \<longleftrightarrow> k = (r, c) \<or> map_of m k \<noteq> None"
    by (simp add: map_of_app x)
  show ?case
    by (simp only: fold_simps Cons.IH t d v n) auto
qed

lemma mem_cols_calls:
  "(r, c, w) \<in> set (cols_calls b ix row jx) \<longleftrightarrow>
     jx \<noteq> ix \<and> r = row \<and> c \<in> set (b ! jx) \<and> w = (ix < jx)"
  by (auto simp: cols_calls_def)

lemma mem_row_calls:
  "(r, c, w) \<in> set (row_calls b ix row) \<longleftrightarrow>
     (\<exists>jx < length b. jx \<noteq> ix \<and> r = row \<and> c \<in> set (b ! jx) \<and> w = (ix < jx))"
  by (auto simp: row_calls_def mem_cols_calls)

lemma mem_rank_calls:
  "(r, c, w) \<in> set (rank_calls b ix) \<longleftrightarrow>
     r \<in> set (b ! ix) \<and> (\<exists>jx < length b. jx \<noteq> ix \<and> c \<in> set (b ! jx) \<and> w = (ix < jx))"
  by (auto simp: rank_calls_def mem_row_calls)

lemma mem_calls:
  "(r, c, w) \<in> set (calls b) \<longleftrightarrow>
     (\<exists>ix < length b. r \<in> set (b ! ix)
        \<and> (\<exists>jx < length b. jx \<noteq> ix \<and> c \<in> set (b ! jx) \<and> w = (ix < jx)))"
proof -
  have "(r, c, w) \<in> set (calls b) \<longleftrightarrow> (\<exists>ix. ix < length b \<and> (r, c, w) \<in> set (rank_calls b ix))"
    unfolding calls_def by auto
  then show ?thesis by (simp only: mem_rank_calls)
qed

lemma touched_calls:
  "(A, B) \<in> touched (calls b) \<longleftrightarrow>
     (\<exists>i j. i < length b \<and> j < length b \<and> i \<noteq> j \<and> A \<in> set (b ! i) \<and> B \<in> set (b ! j))"
proof -
  have "(A, B) \<in> touched (calls b) \<longleftrightarrow> (\<exists>w. (A, B, w) \<in> set (calls b))"
    unfolding touched_def by force
  then show ?thesis unfolding mem_calls by blast
qed

lemma delta_append: "delta (xs @ ys) k = delta xs k + delta ys k"
  by (simp add: delta_def)

lemma delta_concat_map: "delta (concat (map g xs)) k = sum_list (map (\<lambda>x. delta (g x) k) xs)"
  by (induction xs) (simp_all add: delta_append, simp add: delta_def)

lemma delta_cols:
  "delta (map (\<lambda>col. (row, col, w)) ys) (A, B) =
     (if row = A then int (count_list ys B) * (if w then 1 else - 1) else 0)"
  by (induction ys) (auto simp: delta_def weight_def algebra_simps)

lemma sum_list_if_eq:
  "sum_list (map (\<lambda>row. if row = A then (t::int) else 0) xs) = int (count_list xs A) * t"
  by (induction xs) (auto simp: algebra_simps)

lemma delta_cols_calls:
  "delta (cols_calls b ix row jx) (A, B) = (if row = A then col_term b B ix jx else 0)"
  by (simp add: cols_calls_def delta_cols col_term_def) (simp add: delta_def)

lemma delta_row_calls:
  "delta (row_calls b ix row) (A, B)
     = (if row = A then (\<Sum>jx = 0..<length b. col_term b B ix jx) else 0)"
  unfolding row_calls_def delta_concat_map delta_cols_calls
  by (simp add: interv_sum_list_conv_sum_set_nat)

lemma delta_rank_calls:
  "delta (rank_calls b ix) (A, B)
     = int (count_list (b ! ix) A) * (\<Sum>jx = 0..<length b. col_term b B ix jx)"
  unfolding rank_calls_def delta_concat_map delta_row_calls sum_list_if_eq ..

lemma pair_term_col_term:
  "int (count_list (b ! ix) A) * col_term b B ix jx = pair_term b A B ix jx"
  by (simp add: col_term_def pair_term_def)

lemma delta_calls:
  "delta (calls b) (A, B) = (\<Sum>ix = 0..<length b. \<Sum>jx = 0..<length b. pair_term b A B ix jx)"
  unfolding calls_def delta_concat_map delta_rank_calls sum_distrib_left pair_term_col_term
  by (simp add: interv_sum_list_conv_sum_set_nat)

lemma sum_pair_term_swap:
  "(\<Sum>ix = 0..<n. \<Sum>jx = 0..<n. pair_term b B A jx ix)
     = - (\<Sum>ix = 0..<n. \<Sum>jx = 0..<n. pair_term b A B ix jx)"
proof -
  have sw: "\<And>ix jx. pair_term b B A jx ix = - pair_term b A B ix jx"
    by (simp add: pair_term_def)
  have "(\<Sum>ix = 0..<n. \<Sum>jx = 0..<n. pair_term b B A jx ix)
      = (\<Sum>ix = 0..<n. - (\<Sum>jx = 0..<n. pair_term b A B ix jx))"
    by (intro sum.cong refl) (simp only: sw sum_negf)
  then show ?thesis by (simp only: sum_negf)
qed

lemma delta_calls_antisym: "delta (calls b) (B, A) = - delta (calls b) (A, B)"
proof -
  have "delta (calls b) (B, A) = (\<Sum>jx = 0..<length b. \<Sum>ix = 0..<length b. pair_term b B A jx ix)"
    by (rule delta_calls)
  also have "\<dots> = (\<Sum>ix = 0..<length b. \<Sum>jx = 0..<length b. pair_term b B A jx ix)"
    by (rule sum.swap)
  also have "\<dots> = - (\<Sum>ix = 0..<length b. \<Sum>jx = 0..<length b. pair_term b A B ix jx)"
    by (rule sum_pair_term_swap)
  also have "\<dots> = - delta (calls b) (A, B)"
    by (simp only: delta_calls)
  finally show ?thesis .
qed

lemma delta_all_antisym:
  "delta (concat (map calls bs)) (B, A) = - delta (concat (map calls bs)) (A, B)"
proof (induction bs)
  case Nil
  show ?case by (simp add: delta_def)
next
  case (Cons b bs)
  show ?case
    using Cons.IH delta_calls_antisym [of b B A] by (simp add: delta_append)
qed

lemma touched_append: "touched (xs @ ys) = touched xs \<union> touched ys"
  by (simp add: touched_def image_Un)

lemma touched_all:
  "(A, B) \<in> touched (concat (map calls bs)) \<longleftrightarrow>
     (\<exists>b \<in> set bs. \<exists>i j. i < length b \<and> j < length b \<and> i \<noteq> j \<and> A \<in> set (b ! i) \<and> B \<in> set (b ! j))"
proof (induction bs)
  case Nil
  show ?case by (simp add: touched_def)
next
  case (Cons b bs)
  have "(A, B) \<in> touched (concat (map calls (b # bs))) \<longleftrightarrow>
      (A, B) \<in> touched (calls b) \<or> (A, B) \<in> touched (concat (map calls bs))"
    by (simp add: touched_append)
  then show ?case unfolding Cons.IH touched_calls by auto
qed

lemma addballots_fields:
  "margins (addballots c bs) = margins c \<and> ballots (addballots c bs) = ballots c @ bs
     \<and> entries (addballots c bs) = entries c \<and> count (addballots c bs) = count c"
  unfolding addballots_def by (induction bs arbitrary: c) (simp_all add: addballot_def)

lemma Contest_init_fields:
  "Contest_init ents = Inr c \<Longrightarrow>
     margins c = [] \<and> ballots c = [] \<and> entries c = ents \<and> count c = length ents \<and> ents \<noteq> []"
  by (auto simp: Contest_init_def split: if_splits)

lemma margin_to_matrix_margins: "margin_to_matrix c = Inr c' \<Longrightarrow> margins c' = margins c"
  by (auto simp: margin_to_matrix_def split: sum.splits)

lemma computemargins_margins:
  "margins (fst (computemargins c)) = fold app (concat (map calls (ballots c))) (margins c)"
proof (cases "margin_to_matrix (fold ballot_margins (ballots c) c)")
  case (Inl e)
  then show ?thesis by (simp add: computemargins_def fold_ballot_margins)
next
  case (Inr c2)
  from margin_to_matrix_margins [OF Inr] Inr show ?thesis
    by (simp add: computemargins_def fold_ballot_margins)
qed

lemma tallied_margins:
  assumes "Contest_init ents = Inr c0"
  shows "map_of (margins (fst (computemargins (addballots c0 bs)))) k =
     (if k \<in> touched (concat (map calls bs)) then Some (delta (concat (map calls bs)) k) else None)"
  using Contest_init_fields [OF assms] addballots_fields [of c0 bs]
  by (simp add: computemargins_margins map_of_fold_app val_of_def)

text \<open>
  Claim C4. After \<open>computemargins\<close> on any list of ballots, \<open>(A, B)\<close> is in the margins
  table iff \<open>(B, A)\<close> is, a pair is in the table iff some ballot has \<open>A\<close> and \<open>B\<close> in
  different rank groups, and \<open>margins[(A, B)] = - margins[(B, A)]\<close> whenever present.
  (The table is read in the state \<open>computemargins\<close> leaves, whether or not
  \<open>margin_to_matrix\<close> raised at its end.)
\<close>

theorem margins_antisymmetric:
  assumes "Contest_init ents = Inr c0"
    and "m = margins (fst (computemargins (addballots c0 bs)))"
  shows "(map_of m (A, B) \<noteq> None \<longleftrightarrow> map_of m (B, A) \<noteq> None)
     \<and> (map_of m (A, B) \<noteq> None \<longleftrightarrow>
          (\<exists>b \<in> set bs. \<exists>i j. i < length b \<and> j < length b \<and> i \<noteq> j
             \<and> A \<in> set (b ! i) \<and> B \<in> set (b ! j)))
     \<and> (\<forall>v. map_of m (A, B) = Some v \<longrightarrow> map_of m (B, A) = Some (- v))"
proof -
  let ?cs = "concat (map calls bs)"
  have ab: "map_of m (A, B) = (if (A, B) \<in> touched ?cs then Some (delta ?cs (A, B)) else None)"
    and ba: "map_of m (B, A) = (if (B, A) \<in> touched ?cs then Some (delta ?cs (B, A)) else None)"
    unfolding assms(2) by (rule tallied_margins [OF assms(1)])+
  have sym: "(B, A) \<in> touched ?cs \<longleftrightarrow> (A, B) \<in> touched ?cs"
    unfolding touched_all by blast
  have 1: "map_of m (A, B) \<noteq> None \<longleftrightarrow> map_of m (B, A) \<noteq> None"
    by (simp add: ab ba sym)
  have 2: "map_of m (A, B) \<noteq> None \<longleftrightarrow>
          (\<exists>b \<in> set bs. \<exists>i j. i < length b \<and> j < length b \<and> i \<noteq> j
             \<and> A \<in> set (b ! i) \<and> B \<in> set (b ! j))"
    using touched_all [of A B bs] by (simp add: ab)
  have 3: "\<forall>v. map_of m (A, B) = Some v \<longrightarrow> map_of m (B, A) = Some (- v)"
    by (simp add: ab ba sym delta_all_antisym [of bs B A])
  from 1 2 3 show ?thesis by blast
qed

theorem margins_antisymmetric_witness:
  "Contest_init [''1'', ''2'', ''3''] = Inr three
     \<and> map_of (margins (fst (computemargins (addballots three [[[''2''], [''3'']], [[''2'', ''1''], [''3'']]]))))
          (''2'', ''3'') = Some 2
     \<and> map_of (margins (fst (computemargins (addballots three [[[''2''], [''3'']], [[''2'', ''1''], [''3'']]]))))
          (''3'', ''2'') = Some (- 2)
     \<and> map_of (margins (fst (computemargins (addballots three [[[''2''], [''3'']], [[''2'', ''1''], [''3'']]]))))
          (''2'', ''1'') = None
     \<and> map_of (margins (fst (computemargins (addballots three [[[''2''], [''3'']], [[''2'', ''1''], [''3'']]]))))
          (''1'', ''2'') = None"
proof -
  let ?m = "margins (fst (computemargins (addballots three [[[''2''], [''3'']], [[''2'', ''1''], [''3'']]])))"
  have a: "map_of ?m (''2'', ''3'') = Some 2" and b: "map_of ?m (''2'', ''1'') = None"
    by code_simp+
  from margins_antisymmetric [OF three_init refl, where A = "''2''" and B = "''3''"] a
  have "map_of ?m (''3'', ''2'') = Some (- 2)" by simp
  moreover from margins_antisymmetric [OF three_init refl, where A = "''2''" and B = "''1''"] b
  have "map_of ?m (''1'', ''2'') = None" by blast
  ultimately show ?thesis using a b three_init by simp
qed

lemma tallied_self_pair:
  assumes "Contest_init ents = Inr c0"
    and "map_of (margins (fst (computemargins (addballots c0 bs)))) (A, A) = Some v"
  shows "v = 0"
proof -
  have "delta (concat (map calls bs)) (A, A) = 0"
    using delta_all_antisym [of bs A A] by simp
  with assms(2) show ?thesis
    unfolding tallied_margins [OF assms(1)] by (simp split: if_splits)
qed

lemma distinct_app: "distinct (map fst m) \<Longrightarrow> distinct (map fst (app x m))"
  by (cases x) (simp add: app_def distinct_update)

lemma distinct_fold_app: "distinct (map fst m) \<Longrightarrow> distinct (map fst (fold app cs m))"
  by (induction cs arbitrary: m) (simp_all add: distinct_app)

lemma tallied_distinct:
  assumes "Contest_init ents = Inr c0"
  shows "distinct (map fst (margins (fst (computemargins (addballots c0 bs)))))"
  using Contest_init_fields [OF assms] addballots_fields [of c0 bs]
  by (simp add: computemargins_margins distinct_fold_app)

subsection \<open>The leave-one-out pass\<close>

lemma accept_all_except_removeAll:
  "accept_all_except oc avoid tups = accept_all oc (removeAll avoid tups)"
proof (induction tups arbitrary: oc)
  case Nil
  show ?case by simp
next
  case (Cons tup tups)
  obtain w l where tup: "tup = (w, l)" by (cases tup)
  show ?case
    by (cases "tup = avoid") (auto simp: tup Cons.IH split: sum.splits)
qed

lemma fold_collect:
  "fold (\<lambda>x acc. if Q x then acc @ [x] else acc) ys acc = acc @ filter Q ys"
  by (induction ys arbitrary: acc) simp_all

lemma notguilty_filter:
  "fold (notguilty_step oc compatls) ys []
     = filter (\<lambda>P. isl (accept_all (clone oc) (removeAll P compatls))) ys"
proof -
  have "notguilty_step oc compatls
      = (\<lambda>x acc. if isl (accept_all (clone oc) (removeAll x compatls)) then acc @ [x] else acc)"
    by (intro ext) (simp add: notguilty_step_def accept_all_except_removeAll split: sum.splits)
  then show ?thesis by (simp add: fold_collect)
qed

lemma length_filter_eq_iff: "length (filter Q xs) = length xs \<longleftrightarrow> (\<forall>x \<in> set xs. Q x)"
proof (induction xs)
  case Nil
  show ?case by simp
next
  case (Cons x xs)
  have "length (filter Q xs) \<le> length xs" by simp
  then have "length (filter Q xs) \<noteq> Suc (length xs)" by linarith
  with Cons show ?case by auto
qed

lemma set_filter_eq_iff: "set (filter Q xs) = set xs \<longleftrightarrow> (\<forall>x \<in> set xs. Q x)"
  by auto

lemma leave_one_out_refines: "leave_one_out oc compatls = spec_leave_one_out oc compatls"
proof -
  let ?fails = "\<lambda>P. isl (accept_all (clone oc) (removeAll P compatls))"
  let ?ng = "filter ?fails compatls"
  let ?ex = "filter (\<lambda>P. \<not> ?fails P) compatls"
  have kept: "filter (\<lambda>P. P \<notin> set ?ex) compatls = ?ng"
    by (rule filter_cong) auto
  have none: "length ?ng = 0 \<longleftrightarrow> set ?ex = set compatls"
    unfolding set_filter_eq_iff by (simp add: filter_empty_conv)
  have all: "length ?ng = length compatls \<longleftrightarrow> ?ex = []"
    unfolding length_filter_eq_iff by (simp add: filter_empty_conv)
  show ?thesis
    unfolding leave_one_out_def spec_leave_one_out_def Let_def notguilty_filter kept none all
    by auto
qed

text \<open>
  Claim C6. When the bulk accept of a level raises, \<open>compute\<close> runs the leave-one-out
  heuristic: for each remaining pair \<open>P\<close> it tries to accept all pairs but \<open>P\<close> into a
  fresh clone of the Outcome before the level; the pairs whose omission makes the try
  succeed are the exclusion set; when that set is empty or is the whole remaining set the
  level is abandoned; otherwise the other pairs are tried again as one batch on a fresh
  clone, which is adopted on success and dropped on a new contradiction.
\<close>

theorem leave_one_out_heuristic:
  assumes "filter_compatible outcome ls = Inr compatls"
    and "accept_all (clone outcome) compatls = Inl e"
  shows "process_level outcome ls = Inr (spec_leave_one_out outcome compatls)"
  using assms by (simp add: process_level_def leave_one_out_refines)

subsection \<open>The resolution driver\<close>

lemma gather_step_map_of:
  assumes "no_empty dic"
  shows "map_of (gather_step m tup dic) v =
     (if 0 < level_of m tup \<and> level_of m tup = v
      then Some ((case map_of dic v of None \<Rightarrow> [] | Some ls \<Rightarrow> ls) @ [tup])
      else map_of dic v)"
  using assms
  by (auto simp: gather_step_def level_of_def Let_def update_conv' no_empty_def
      split: option.splits)

lemma gather_step_no_empty: "no_empty dic \<Longrightarrow> no_empty (gather_step m tup dic)"
  unfolding no_empty_def
proof
  fix v
  assume a: "\<forall>v. map_of dic v \<noteq> Some []"
  then have "no_empty dic" by (simp add: no_empty_def)
  from gather_step_map_of [OF this] a show "map_of (gather_step m tup dic) v \<noteq> Some []"
    by auto
qed

lemma gather_fold:
  assumes "no_empty dic"
  shows "no_empty (fold (gather_step m) ks dic) \<and>
     (\<forall>v. map_of (fold (gather_step m) ks dic) v =
        (let new = filter (\<lambda>tup. 0 < level_of m tup \<and> level_of m tup = v) ks in
         case map_of dic v of
           None \<Rightarrow> if new = [] then None else Some new
         | Some ls \<Rightarrow> Some (ls @ new)))"
  using assms
proof (induction ks arbitrary: dic)
  case Nil
  then show ?case by (auto split: option.splits)
next
  case (Cons k ks)
  note ne = gather_step_no_empty [OF Cons.prems, of m k]
  note st = gather_step_map_of [OF Cons.prems, of m k]
  from Cons.IH [OF ne] have 1: "no_empty (fold (gather_step m) (k # ks) dic)" by simp
  have 2: "map_of (fold (gather_step m) (k # ks) dic) v =
        (let new = filter (\<lambda>tup. 0 < level_of m tup \<and> level_of m tup = v) (k # ks) in
         case map_of dic v of
           None \<Rightarrow> if new = [] then None else Some new
         | Some ls \<Rightarrow> Some (ls @ new))" for v
  proof -
    from Cons.IH [OF ne]
    have "map_of (fold (gather_step m) (k # ks) dic) v =
        (let new = filter (\<lambda>tup. 0 < level_of m tup \<and> level_of m tup = v) ks in
         case map_of (gather_step m k dic) v of
           None \<Rightarrow> if new = [] then None else Some new
         | Some ls \<Rightarrow> Some (ls @ new))"
      by simp
    then show ?thesis
      unfolding st by (auto simp: Let_def split: option.splits)
  qed
  from 1 2 show ?case by blast
qed

lemma gather_map_of:
  "map_of (gather c) v =
     (let new = filter (\<lambda>tup. 0 < level_of (margins c) tup \<and> level_of (margins c) tup = v)
                  (map fst (margins c))
      in if new = [] then None else Some new)"
proof -
  have "no_empty []" by (simp add: no_empty_def)
  from gather_fold [OF this, of "margins c" "map fst (margins c)"]
  show ?thesis by (simp add: gather_def Let_def)
qed

lemma facts_at_distinct:
  assumes "distinct (map fst m)"
  shows "map fst (filter (\<lambda>(tup, val). val = v) m) = filter (\<lambda>tup. map_of m tup = Some v) (map fst m)"
  using assms
proof (induction m)
  case Nil
  show ?case by simp
next
  case (Cons p m)
  obtain k x where p: "p = (k, x)" by (cases p)
  from Cons.prems have k: "k \<notin> fst ` set m" and d: "distinct (map fst m)"
    by (auto simp: p)
  have "filter (\<lambda>tup. map_of (p # m) tup = Some v) (map fst m)
      = filter (\<lambda>tup. map_of m tup = Some v) (map fst m)"
    by (rule filter_cong) (use k in \<open>auto simp: p\<close>)
  with Cons.IH [OF d] show ?case by (simp add: p)
qed

lemma gather_level:
  assumes "distinct (map fst (margins c))"
  shows "map_of (gather c) v =
     (if 0 < v \<and> spec_facts_at c v \<noteq> [] then Some (spec_facts_at c v) else None)"
proof -
  let ?m = "margins c"
  have eq: "filter (\<lambda>tup. 0 < level_of ?m tup \<and> level_of ?m tup = v) (map fst ?m)
      = (if 0 < v then spec_facts_at c v else [])"
  proof (cases "0 < v")
    case True
    have "filter (\<lambda>tup. 0 < level_of ?m tup \<and> level_of ?m tup = v) (map fst ?m)
        = filter (\<lambda>tup. map_of ?m tup = Some v) (map fst ?m)"
    proof (rule filter_cong [OF refl])
      fix tup
      assume "tup \<in> set (map fst ?m)"
      then obtain x where "map_of ?m tup = Some x"
        by (metis domD dom_map_of_conv_image_fst list.set_map)
      then show "(0 < level_of ?m tup \<and> level_of ?m tup = v) = (map_of ?m tup = Some v)"
        using True by (auto simp: level_of_def)
    qed
    with True show ?thesis
      by (simp add: spec_facts_at_def facts_at_distinct [OF assms])
  next
    case False
    then show ?thesis by (auto simp: filter_empty_conv)
  qed
  show ?thesis unfolding gather_map_of Let_def eq by simp
qed

lemma spec_facts_at_nonempty:
  "spec_facts_at c v \<noteq> [] \<longleftrightarrow> v \<in> snd ` set (margins c)"
  by (force simp: spec_facts_at_def filter_empty_conv)

lemma filter_compatible_ok:
  assumes "\<forall>(w, l) \<in> set ls. w \<noteq> l"
  shows "filter_compatible oc ls
     = Inr (filter (\<lambda>(winner, loser). compatible oc winner loser = Inr True) ls)"
  using assms
proof (induction ls)
  case Nil
  show ?case by simp
next
  case (Cons p ls)
  obtain w l where p: "p = (w, l)" by (cases p)
  from Cons.prems have "w \<noteq> l" by (simp add: p)
  then have "compatible oc w l = Inr (\<not> dict_has (map_of (higher oc) w) l
      \<and> \<not> dict_has (map_of (lower oc) l) w)"
    by (simp add: compatible_def)
  then obtain ok where ok: "compatible oc w l = Inr ok" ..
  from Cons show ?case by (simp add: p ok)
qed

lemma process_level_spec:
  assumes "\<forall>(w, l) \<in> set ls. w \<noteq> l"
  shows "process_level oc ls = Inr (spec_level oc ls)"
  by (simp add: process_level_def spec_level_def filter_compatible_ok [OF assms] Let_def
      split: sum.splits)

lemma levels_loop_spec:
  assumes "\<And>v ls. map_of dic v = Some ls \<Longrightarrow> \<forall>(w, l) \<in> set ls. w \<noteq> l"
  shows "levels_loop dic levels oc
     = Inr (fold (\<lambda>v outcome. spec_level outcome (the (map_of dic v)))
              (filter (\<lambda>v. map_of dic v \<noteq> None \<and> map_of dic v \<noteq> Some []) levels) oc)"
proof (induction levels arbitrary: oc)
  case Nil
  show ?case by simp
next
  case (Cons v levels)
  show ?case
  proof (cases "map_of dic v")
    case None
    then show ?thesis by (simp add: Cons.IH)
  next
    case (Some ls)
    from process_level_spec [OF assms [OF Some]] Some show ?thesis
      by (simp add: Cons.IH)
  qed
qed

lemma mem_spec_facts_at: "tup \<in> set (spec_facts_at c v) \<longleftrightarrow> (tup, v) \<in> set (margins c)"
  by (force simp: spec_facts_at_def)

lemma sorted_filter_upto: "sorted (filter Q [i..j])"
  by (rule sorted_wrt_filter) (rule sorted_upto)

lemma compute_spec:
  assumes ok: "table_ok (margins c)"
  shows "compute c = Inr (spec_compute c)"
proof -
  let ?m = "margins c" and ?dic = "gather c"
  let ?P = "{v. 0 < v \<and> v \<in> snd ` set ?m}"
  from ok have d: "distinct (map fst ?m)" and s: "\<forall>((a, b), v) \<in> set ?m. 0 < v \<longrightarrow> a \<noteq> b"
    by (simp_all add: table_ok_def)
  have lev: "map_of ?dic v = (if v \<in> ?P then Some (spec_facts_at c v) else None)" for v
    by (simp add: gather_level [OF d] spec_facts_at_nonempty)
  have ne: "v \<in> ?P \<Longrightarrow> spec_facts_at c v \<noteq> []" for v
    by (simp add: spec_facts_at_nonempty)
  have P: "set (filter (\<lambda>v. 0 < v) (map snd ?m)) = ?P" by auto
  have dom: "fst ` set ?dic = ?P"
    unfolding dom_map_of_conv_image_fst [symmetric] by (auto simp: lev dom_def)
  show ?thesis
  proof (cases "?dic = []")
    case True
    with dom have "?P = {}" by simp
    with P have "filter (\<lambda>v. 0 < v) (map snd ?m) = []"
      by (metis set_empty)
    then have "spec_levels c = []" by (simp add: spec_levels_def)
    with True show ?thesis by (simp add: compute_def spec_compute_def)
  next
    case False
    let ?M = "fold max (map fst (tl ?dic)) (fst (hd ?dic))"
    from False have "?dic = hd ?dic # tl ?dic" by simp
    then have "Max (set (map fst ?dic)) = ?M"
      by (metis Max.set_eq_fold list.simps(9))
    then have M: "?M = Max ?P" using dom by simp
    have fin: "finite ?P" by simp
    have self: "\<And>v ls. map_of ?dic v = Some ls \<Longrightarrow> \<forall>(w, l) \<in> set ls. w \<noteq> l"
    proof -
      fix v ls
      assume "map_of ?dic v = Some ls"
      then have v: "v \<in> ?P" and ls: "ls = spec_facts_at c v"
        by (auto simp: lev split: if_splits)
      show "\<forall>(w, l) \<in> set ls. w \<noteq> l"
        using s v unfolding ls by (auto simp: mem_spec_facts_at)
    qed
    let ?Q = "\<lambda>v. map_of ?dic v \<noteq> None \<and> map_of ?dic v \<noteq> Some []"
    have Q: "?Q v \<longleftrightarrow> v \<in> ?P" for v
      using ne [of v] by (simp add: lev)
    have "set (filter ?Q [1..?M]) = ?P"
    proof -
      have "v \<in> ?P \<Longrightarrow> 1 \<le> v \<and> v \<le> ?M" for v
        unfolding M using Max_ge [OF fin, of v] by auto
      then show ?thesis unfolding set_filter Q by auto
    qed
    then have "set (filter ?Q [1..?M]) = set (sort (remdups (filter (\<lambda>v. 0 < v) (map snd ?m))))"
      using P by simp
    then have "filter ?Q [1..?M] = sort (remdups (filter (\<lambda>v. 0 < v) (map snd ?m)))"
      by (intro sorted_distinct_set_unique sorted_filter_upto) simp_all
    then have levels: "filter ?Q (rev [1..?M]) = spec_levels c"
      by (simp only: spec_levels_def rev_filter [symmetric])
    have "set (spec_levels c) = ?P"
      unfolding spec_levels_def using P by simp
    then have same: "fold (\<lambda>v outcome. spec_level outcome (the (map_of ?dic v))) (spec_levels c) oc
        = fold (\<lambda>v outcome. spec_level outcome (spec_facts_at c v)) (spec_levels c) oc" for oc
      by (intro fold_cong refl) (simp add: lev)
    have "compute c = levels_loop ?dic (rev [1..?M]) (Outcome_init c)"
      using False by (simp add: compute_def Let_def)
    also have "\<dots> = Inr (fold (\<lambda>v outcome. spec_level outcome (the (map_of ?dic v)))
        (filter ?Q (rev [1..?M])) (Outcome_init c))"
      by (rule levels_loop_spec [OF self])
    also have "\<dots> = Inr (spec_compute c)"
      unfolding levels same spec_compute_def ..
    finally show ?thesis .
  qed
qed

lemma tallied_table_ok:
  assumes "Contest_init ents = Inr c0"
  shows "table_ok (margins (fst (computemargins (addballots c0 bs))))"
  unfolding table_ok_def
proof
  show "distinct (map fst (margins (fst (computemargins (addballots c0 bs)))))"
    by (rule tallied_distinct [OF assms])
next
  let ?m = "margins (fst (computemargins (addballots c0 bs)))"
  have d: "distinct (map fst ?m)" by (rule tallied_distinct [OF assms])
  show "\<forall>((a, b), v) \<in> set ?m. 0 < v \<longrightarrow> a \<noteq> b"
  proof (clarify)
    fix a v
    assume "((a, a), v) \<in> set ?m" and v: "0 < v"
    with d have "map_of ?m (a, a) = Some v" by simp
    from tallied_self_pair [OF assms this] v show False by simp
  qed
qed

subsection \<open>The tally and its order\<close>

lemma fold_update_map_of:
  "map_of (fold (\<lambda>row. AList.update row (T row)) rows res) k =
     (if k \<in> set rows then Some (T k) else map_of res k)"
  by (induction rows arbitrary: res) (auto simp: update_conv')

lemma result_map_of:
  "map_of (result oc) k = (if k \<in> set (o_entries oc) then Some (triple oc k) else None)"
proof -
  have "(\<lambda>row res. case tally oc row of
              (wins, losses) \<Rightarrow>
                AList.update row (wins, losses, int (count (contest oc)) - 1 - (wins + losses)) res)
      = (\<lambda>row. AList.update row (triple oc row))"
    by (intro ext) (simp add: triple_def split: prod.splits)
  then have "result oc = fold (\<lambda>row. AList.update row (triple oc row)) (o_entries oc) []"
    unfolding result_def Let_def by simp
  then show ?thesis by (simp add: fold_update_map_of)
qed

lemma func_result:
  assumes "k1 \<in> set (o_entries oc)" and "k2 \<in> set (o_entries oc)"
  shows "func (result oc) k1 k2 = Inr (cmp (sort_key oc k2) (sort_key oc k1))"
  using assms by (simp add: func_def result_map_of sort_key_def split: prod.splits)

lemma cmp_neg: "cmp a b < 0 \<longleftrightarrow> tuple_lt a b"
  by (auto simp: cmp_def tuple_lt_def)

lemma not_after_trans: "not_after oc a b \<Longrightarrow> not_after oc b c \<Longrightarrow> not_after oc a c"
  by (auto simp: not_after_def tuple_lt_def)

lemma insert_sorted_ok:
  assumes "pivot \<in> set (o_entries oc)" and "set xs \<subseteq> set (o_entries oc)"
    and "sorted_wrt (not_after oc) xs"
  shows "\<exists>ys. insert_sorted (func (result oc)) pivot xs = Inr ys
           \<and> set ys = insert pivot (set xs) \<and> length ys = Suc (length xs)
           \<and> sorted_wrt (not_after oc) ys"
  using assms
proof (induction xs)
  case Nil
  then show ?case by simp
next
  case (Cons x xs)
  from Cons.prems have x: "x \<in> set (o_entries oc)" and xs: "set xs \<subseteq> set (o_entries oc)"
    and sx: "\<forall>y \<in> set xs. not_after oc x y" and s: "sorted_wrt (not_after oc) xs"
    by auto
  note f = func_result [OF Cons.prems(1) x]
  show ?case
  proof (cases "tuple_lt (sort_key oc x) (sort_key oc pivot)")
    case True
    then have px: "not_after oc pivot x"
      by (auto simp: not_after_def tuple_lt_def)
    with sx have "\<forall>y \<in> set xs. not_after oc pivot y"
      using not_after_trans by blast
    with px Cons.prems(3) True show ?thesis
      by (simp add: f cmp_neg)
  next
    case False
    then have xp: "not_after oc x pivot" by (simp add: not_after_def)
    from Cons.IH [OF Cons.prems(1) xs s] obtain ys where
      ys: "insert_sorted (func (result oc)) pivot xs = Inr ys" "set ys = insert pivot (set xs)"
        "length ys = Suc (length xs)" "sorted_wrt (not_after oc) ys"
      by blast
    with False xp sx show ?thesis
      by (auto simp: f cmp_neg)
  qed
qed

lemma sort_loop_ok:
  assumes "set rest \<subseteq> set (o_entries oc)" and "set done \<subseteq> set (o_entries oc)"
    and "sorted_wrt (not_after oc) done"
  shows "\<exists>ys. sort_loop (func (result oc)) rest done = Inr ys
           \<and> set ys = set rest \<union> set done \<and> length ys = length rest + length done
           \<and> sorted_wrt (not_after oc) ys"
  using assms
proof (induction rest arbitrary: "done")
  case Nil
  then show ?case by simp
next
  case (Cons pivot rest)
  from Cons.prems have p: "pivot \<in> set (o_entries oc)" and r: "set rest \<subseteq> set (o_entries oc)"
    by auto
  from insert_sorted_ok [OF p Cons.prems(2,3)] obtain d where
    d: "insert_sorted (func (result oc)) pivot done = Inr d" "set d = insert pivot (set done)"
      "length d = Suc (length done)" "sorted_wrt (not_after oc) d"
    by blast
  from d(2) p Cons.prems(2) have "set d \<subseteq> set (o_entries oc)" by auto
  from Cons.IH [OF r this d(4)] d show ?case by auto
qed

lemma printresult_order_sorted:
  "\<exists>ls. printresult_order oc = Inr ls \<and> set ls = set (o_entries oc)
      \<and> length ls = length (o_entries oc) \<and> sorted_wrt (not_after oc) ls"
  using sort_loop_ok [of "o_entries oc" oc "[]"] by (simp add: printresult_order_def Let_def)

text \<open>
  Claim C2, as amended. \<open>printresult\<close> sorts the candidates descending by wins and, among
  candidates with equal wins, descending by unresolved count (which is ascending by
  losses): when \<open>X\<close> is printed before \<open>Y\<close>, \<open>X\<close> has at least as many wins as \<open>Y\<close>, and
  with equal wins the unresolved count of \<open>X\<close> is greater than or equal to that of \<open>Y\<close>.
\<close>

theorem printresult_sorted:
  "\<exists>ls. printresult_order oc = Inr ls \<and> set ls = set (o_entries oc)
      \<and> length ls = length (o_entries oc)
      \<and> (\<forall>i j w1 l1 t1 w2 l2 t2. i < j \<and> j < length ls
           \<and> map_of (result oc) (ls ! i) = Some (w1, l1, t1)
           \<and> map_of (result oc) (ls ! j) = Some (w2, l2, t2)
           \<longrightarrow> w2 \<le> w1 \<and> (w1 = w2 \<longrightarrow> t2 \<le> t1))"
proof -
  from printresult_order_sorted [of oc] obtain ls where
    ls: "printresult_order oc = Inr ls" "set ls = set (o_entries oc)"
      "length ls = length (o_entries oc)" "sorted_wrt (not_after oc) ls"
    by blast
  have "w2 \<le> w1 \<and> (w1 = w2 \<longrightarrow> t2 \<le> t1)"
    if h: "i < j" "j < length ls" "map_of (result oc) (ls ! i) = Some (w1, l1, t1)"
      "map_of (result oc) (ls ! j) = Some (w2, l2, t2)" for i j w1 l1 t1 w2 l2 t2
  proof -
    from ls(4) h(1,2) have "not_after oc (ls ! i) (ls ! j)"
      by (simp add: sorted_wrt_iff_nth_less)
    moreover from h(3) have "sort_key oc (ls ! i) = (w1, t1)"
      by (auto simp: result_map_of sort_key_def split: if_splits)
    moreover from h(4) have "sort_key oc (ls ! j) = (w2, t2)"
      by (auto simp: result_map_of sort_key_def split: if_splits)
    ultimately show ?thesis by (auto simp: not_after_def tuple_lt_def)
  qed
  with ls(1-3) show ?thesis by blast
qed

subsection \<open>The documented example\<close>

lemma docs_init: "Contest_init [''AAA'', ''BBB'', ''CCC'', ''DDD''] = Inr docs_contest"
  by (simp add: Contest_init_def docs_contest_def)

lemma docs_margins: "fst (computemargins (addballots docs_contest docs_ballots)) = docs_tallied"
  by code_simp

lemma docs_compute: "compute docs_tallied = Inr docs_outcome"
  by code_simp

lemma docs_result:
  "result docs_outcome
     = [(''AAA'', 1, 2, 0), (''BBB'', 0, 3, 0), (''CCC'', 2, 1, 0), (''DDD'', 3, 0, 0)]"
  by code_simp

lemma docs_order: "printresult_order docs_outcome = Inr [''DDD'', ''CCC'', ''AAA'', ''BBB'']"
  by code_simp

lemma pair_margins:
  "computemargins (addballots three [[[''2''], [''3'']]]) = (pair_tallied, None)"
  by code_simp

lemma pair_compute: "compute pair_tallied = Inr pair_outcome"
  by code_simp

lemma pair_order: "printresult_order pair_outcome = Inr [''2'', ''1'', ''3'']"
  by code_simp

lemma pair_result: "result pair_outcome = [(''1'', 0, 0, 2), (''2'', 1, 0, 1), (''3'', 0, 1, 1)]"
  by code_simp

text \<open>
  Claim C1. The contest of the module's own documentation: candidates \<open>AAA BBB CCC DDD\<close>
  and six ballots. \<open>computemargins\<close> fills the margins table and then raises
  \<open>ValueError\<close> in \<open>margin_to_matrix\<close>, which applies \<open>int\<close> to the candidate names.
\<close>

theorem docs_example_raises:
  "Contest_init [''AAA'', ''BBB'', ''CCC'', ''DDD''] = Inr docs_contest
     \<and> computemargins (addballots docs_contest docs_ballots) = (docs_tallied, Some ValueError)"
proof -
  have "computemargins (addballots docs_contest docs_ballots) = (docs_tallied, Some ValueError)"
    by code_simp
  with docs_init show ?thesis by simp
qed

text \<open>
  The table \<open>computemargins\<close> leaves behind holds the documented margins, and \<open>compute\<close>
  on it gives the documented tally: only \<open>margin_to_matrix\<close> stands in the way.
\<close>

lemma docs_example_tally:
  "map_of (margins docs_tallied) (''AAA'', ''BBB'') = Some 1
     \<and> map_of (margins docs_tallied) (''DDD'', ''AAA'') = Some 3
     \<and> map_of (margins docs_tallied) (''CCC'', ''AAA'') = Some 2
     \<and> map_of (margins docs_tallied) (''DDD'', ''CCC'') = Some 1
     \<and> compute docs_tallied = Inr docs_outcome
     \<and> result docs_outcome
          = [(''AAA'', 1, 2, 0), (''BBB'', 0, 3, 0), (''CCC'', 2, 1, 0), (''DDD'', 3, 0, 0)]
     \<and> printresult_order docs_outcome = Inr [''DDD'', ''CCC'', ''AAA'', ''BBB'']"
  using docs_compute docs_result docs_order by (simp add: docs_tallied_def)

text \<open>
  Claim C2 as stated fails: with candidates \<open>1 2 3\<close> and the one ballot \<open>2 3\<close>, candidate
  \<open>1\<close> (0 wins, 2 unresolved) is printed before candidate \<open>3\<close> (0 wins, 1 unresolved).
\<close>

theorem printresult_ascending_counterexample:
  "computemargins (addballots three [[[''2''], [''3'']]]) = (pair_tallied, None)
     \<and> compute pair_tallied = Inr pair_outcome
     \<and> printresult_order pair_outcome = Inr [''2'', ''1'', ''3'']
     \<and> map_of (result pair_outcome) ''1'' = Some (0, 0, 2)
     \<and> map_of (result pair_outcome) ''3'' = Some (0, 1, 1)
     \<and> \<not> ((2::int) \<le> 1)"
  using pair_margins pair_compute pair_order by (simp add: pair_result)

theorem printresult_sorted_witness:
  "printresult_order pair_outcome = Inr [''2'', ''1'', ''3'']
     \<and> map_of (result pair_outcome) ''1'' = Some (0, 0, 2)
     \<and> map_of (result pair_outcome) ''3'' = Some (0, 1, 1)
     \<and> (1::int) \<le> 2"
proof -
  from printresult_sorted [of pair_outcome] obtain ls where
    ls: "printresult_order pair_outcome = Inr ls"
    and s: "\<forall>i j w1 l1 t1 w2 l2 t2. i < j \<and> j < length ls
           \<and> map_of (result pair_outcome) (ls ! i) = Some (w1, l1, t1)
           \<and> map_of (result pair_outcome) (ls ! j) = Some (w2, l2, t2)
           \<longrightarrow> w2 \<le> w1 \<and> (w1 = w2 \<longrightarrow> t2 \<le> t1)"
    by blast
  from ls pair_order have ls': "ls = [''2'', ''1'', ''3'']" by simp
  have r1: "map_of (result pair_outcome) ''1'' = Some (0, 0, 2)"
    and r3: "map_of (result pair_outcome) ''3'' = Some (0, 1, 1)"
    by (simp_all add: pair_result)
  from s [rule_format, of 1 2 0 0 2 0 1 1] r1 r3 have "(1::int) \<le> 2"
    by (simp add: ls')
  with pair_order r1 r3 show ?thesis by simp
qed

subsection \<open>Uninformative ballots\<close>

lemma concat_map_Nil: "concat (map (\<lambda>x. []) xs) = []"
  by (induction xs) simp_all

lemma calls_single: "length b = 1 \<Longrightarrow> calls b = []"
  by (simp add: calls_def rank_calls_def row_calls_def cols_calls_def concat_map_Nil)

lemma calls_single_all: "\<forall>b \<in> set bs. length b = 1 \<Longrightarrow> concat (map calls bs) = []"
  by (induction bs) (simp_all add: calls_single)

lemma tally_blank: "tally (Outcome_init c) row = (0, 0)"
proof -
  have "fold (\<lambda>col (wins, losses).
            if col = row then (wins, losses)
            else let losses = (if dict_has (map_of (higher (Outcome_init c)) row) col
                               then losses + 1 else losses);
                     wins = (if dict_has (map_of (lower (Outcome_init c)) row) col
                             then wins + 1 else wins)
                 in (wins, losses)) cols (0, 0) = (0 :: int, 0 :: int)" for cols
    by (induction cols) (simp_all add: Outcome_init_def dict_has_def)
  then show ?thesis by (simp add: tally_def)
qed

lemma insert_sorted_tie:
  "\<forall>x \<in> set xs. mycmp pivot x = Inr 0 \<Longrightarrow> insert_sorted mycmp pivot xs = Inr (xs @ [pivot])"
  by (induction xs) simp_all

lemma sort_loop_tie:
  "\<forall>a \<in> set rest. \<forall>b \<in> set done \<union> set rest. mycmp a b = Inr 0 \<Longrightarrow>
     sort_loop mycmp rest done = Inr (done @ rest)"
proof (induction rest arbitrary: "done")
  case Nil
  show ?case by simp
next
  case (Cons pivot rest)
  then have "insert_sorted mycmp pivot done = Inr (done @ [pivot])"
    by (intro insert_sorted_tie) simp
  moreover have "sort_loop mycmp rest (done @ [pivot]) = Inr ((done @ [pivot]) @ rest)"
    by (rule Cons.IH) (use Cons.prems in auto)
  ultimately show ?case by simp
qed

text \<open>
  Claim C8. When every ballot is a single rank group (or there is no ballot),
  \<open>computemargins\<close> leaves the margins table empty, \<open>compute\<close> returns a blank Outcome,
  and \<open>result()\<close> maps every candidate to \<open>(0, 0, n - 1)\<close>: all candidates compare equal
  in \<open>printresult\<close>, which lists them in their original order.
\<close>

theorem uninformative_ballots_tie:
  assumes init: "Contest_init ents = Inr c0"
    and single: "\<forall>b \<in> set bs. length b = 1"
    and c: "c = fst (computemargins (addballots c0 bs))"
  shows "snd (computemargins (addballots c0 bs)) = None
     \<and> margins c = []
     \<and> compute c = Inr (Outcome_init c)
     \<and> (\<forall>k \<in> set ents. map_of (result (Outcome_init c)) k = Some (0, 0, int (length ents) - 1))
     \<and> (\<forall>k1 \<in> set ents. \<forall>k2 \<in> set ents. func (result (Outcome_init c)) k1 k2 = Inr 0)
     \<and> printresult_order (Outcome_init c) = Inr ents"
proof -
  let ?c1 = "addballots c0 bs"
  note f0 = Contest_init_fields [OF init]
  note f1 = addballots_fields [of c0 bs]
  have loops: "fold ballot_margins (ballots ?c1) ?c1 = ?c1"
    using f0 f1 by (simp add: fold_ballot_margins calls_single_all [OF single])
  have m1: "margins ?c1 = []" using f0 f1 by simp
  let ?zero = "replicate (count ?c1) (replicate (count ?c1) (0::int))"
  have cm: "computemargins ?c1 = (?c1\<lparr>margin_matrix := Some ?zero\<rparr>, None)"
    by (simp add: computemargins_def loops margin_to_matrix_def m1 Let_def)
  then have c': "c = ?c1\<lparr>margin_matrix := Some ?zero\<rparr>" by (simp add: c)
  have 1: "snd (computemargins ?c1) = None" by (simp add: cm)
  have 2: "margins c = []" by (simp add: c' m1)
  have 3: "compute c = Inr (Outcome_init c)"
    by (simp add: compute_def gather_def 2)
  have e: "o_entries (Outcome_init c) = ents" "count (contest (Outcome_init c)) = length ents"
    using f0 f1 by (simp_all add: Outcome_init_def c')
  have r: "map_of (result (Outcome_init c)) k = Some (0, 0, int (length ents) - 1)"
    if "k \<in> set ents" for k
    using that by (simp add: result_map_of e triple_def tally_blank)
  have t: "func (result (Outcome_init c)) k1 k2 = Inr 0"
    if "k1 \<in> set ents" "k2 \<in> set ents" for k1 k2
    using that by (simp add: func_def r cmp_def)
  have "sort_loop (func (result (Outcome_init c))) ents [] = Inr ([] @ ents)"
    by (rule sort_loop_tie) (use t in auto)
  then have 6: "printresult_order (Outcome_init c) = Inr ents"
    by (simp add: printresult_order_def Let_def e)
  from 1 2 3 r t 6 show ?thesis by blast
qed

theorem uninformative_ballots_tie_witness:
  "Contest_init [''1'', ''2'', ''3''] = Inr three
     \<and> snd (computemargins (addballots three [[[''3'', ''1'', ''2'']], [[''2'']]])) = None
     \<and> margins (fst (computemargins (addballots three [[[''3'', ''1'', ''2'']], [[''2'']]]))) = []
     \<and> map_of (result (Outcome_init
          (fst (computemargins (addballots three [[[''3'', ''1'', ''2'']], [[''2'']]])))))
          ''2'' = Some (0, 0, 2)
     \<and> printresult_order (Outcome_init
          (fst (computemargins (addballots three [[[''3'', ''1'', ''2'']], [[''2'']]]))))
          = Inr [''1'', ''2'', ''3'']"
proof -
  have s: "\<forall>b \<in> set [[[''3'', ''1'', ''2'']], [[''2'']]]. length b = 1" by simp
  from uninformative_ballots_tie [OF three_init s refl] three_init show ?thesis by simp
qed

text \<open>
  Claim C7. \<open>compute\<close> looks only at the entries of the margins table with a positive
  value, goes through the margins in strictly descending order, at each level drops the
  pairs that are not compatible with the Outcome built from the larger margins, and
  accepts the others in bulk into a clone, which becomes the current Outcome when no
  contradiction is raised (otherwise the leave-one-out pass decides the level).
  The margins table is a dict (its keys are distinct) with no positive margin of a
  candidate over itself, as every table that \<open>computemargins\<close> builds.
\<close>

theorem compute_descending_levels:
  assumes "table_ok (margins c)"
  shows "compute c = Inr (spec_compute c)"
  using assms by (rule compute_spec)

theorem compute_descending_levels_witness:
  "table_ok (margins docs_tallied)
     \<and> spec_levels docs_tallied = [3, 2, 1]
     \<and> spec_facts_at docs_tallied 3 = [(''DDD'', ''BBB''), (''DDD'', ''AAA''), (''CCC'', ''BBB'')]
     \<and> compute docs_tallied = Inr docs_outcome
     \<and> spec_compute docs_tallied = docs_outcome"
proof -
  have ok: "table_ok (margins docs_tallied)" by code_simp
  have l: "spec_levels docs_tallied = [3, 2, 1]" by code_simp
  have f: "spec_facts_at docs_tallied 3 = [(''DDD'', ''BBB''), (''DDD'', ''AAA''), (''CCC'', ''BBB'')]"
    by code_simp
  from compute_descending_levels [OF ok] docs_compute ok l f show ?thesis by simp
qed

lemma cycle_compatible: "filter_compatible (Outcome_init cycle_tallied) cycle_facts = Inr cycle_facts"
  by code_simp

lemma cycle_contradiction:
  "accept_all (clone (Outcome_init cycle_tallied)) cycle_facts = Inl Contradiction"
  by code_simp

lemma cycle_spec: "spec_leave_one_out (Outcome_init cycle_tallied) cycle_facts = cycle_outcome"
  by code_simp

theorem leave_one_out_heuristic_witness:
  "filter_compatible (Outcome_init cycle_tallied) cycle_facts = Inr cycle_facts
     \<and> accept_all (clone (Outcome_init cycle_tallied)) cycle_facts = Inl Contradiction
     \<and> process_level (Outcome_init cycle_tallied) cycle_facts = Inr cycle_outcome
     \<and> beats cycle_outcome ''1'' ''4'' \<and> \<not> beats cycle_outcome ''1'' ''2''"
proof -
  have b: "beats cycle_outcome ''1'' ''4''" "\<not> beats cycle_outcome ''1'' ''2''"
    by (simp_all add: beats_def dict_has_def cycle_outcome_def)
  from leave_one_out_heuristic [OF cycle_compatible cycle_contradiction] cycle_spec
    cycle_compatible cycle_contradiction b
  show ?thesis by simp
qed

lemma cycle_compute: "compute cycle_tallied = Inr cycle_outcome"
  by code_simp

end
